theory Spec2Isabelle
  imports Main "HOL-Library.AList"
begin

section \<open>Strings\<close>

text \<open>
  Go strings are byte sequences; they are modelled as \<^typ>\<open>string\<close> (lists of 8-bit
  characters), and \<^verbatim>\<open>==\<close> on strings is equality of the byte lists. The functions of
  package \<^verbatim>\<open>strings\<close> that \<^verbatim>\<open>main.go\<close> calls are written out below.
\<close>

definition HasPrefix :: "string \<Rightarrow> string \<Rightarrow> bool" where
  "HasPrefix s prefix = (length s \<ge> length prefix \<and> take (length prefix) s = prefix)"

definition HasSuffix :: "string \<Rightarrow> string \<Rightarrow> bool" where
  "HasSuffix s suffix =
     (length s \<ge> length suffix \<and> drop (length s - length suffix) s = suffix)"

definition TrimPrefix :: "string \<Rightarrow> string \<Rightarrow> string" where
  "TrimPrefix s prefix = (if HasPrefix s prefix then drop (length prefix) s else s)"

text \<open>\<^verbatim>\<open>strings.Contains(s, substr)\<close>: \<open>substr\<close> occurs at some position of \<open>s\<close>.\<close>

fun Contains :: "string \<Rightarrow> string \<Rightarrow> bool" where
  "Contains [] substr = (substr = [])"
| "Contains (c # cs) substr = (HasPrefix (c # cs) substr \<or> Contains cs substr)"

text \<open>
  \<^verbatim>\<open>strings.Split(s, sep)\<close> for a non-empty separator, which is the only way the program
  calls it (with \<^verbatim>\<open>"@"\<close>, \<^verbatim>\<open>"/"\<close> and \<^verbatim>\<open>"/node_modules/"\<close>): the string is cut at the
  first occurrence of \<open>sep\<close>, and the search goes on behind that occurrence, so that
  occurrences are taken from left to right and do not overlap. \<open>SplitFrom sep cur s\<close> scans
  \<open>s\<close> with \<open>cur\<close> the piece read since the last cut. (Go's special case of an empty
  separator, which explodes the string into UTF-8 sequences, is not reached and not
  modelled.)
\<close>

fun SplitFrom :: "string \<Rightarrow> string \<Rightarrow> string \<Rightarrow> string list" where
  "SplitFrom sep cur [] = [cur]"
| "SplitFrom sep cur (c # cs) =
     (if HasPrefix (c # cs) sep
      then cur # SplitFrom sep [] (drop (length sep - 1) cs)
      else SplitFrom sep (cur @ [c]) cs)"

definition Split :: "string \<Rightarrow> string \<Rightarrow> string list" where
  "Split s sep = SplitFrom sep [] s"

section \<open>The package-name extraction and the registry check\<close>

definition extractPackageName :: "string \<Rightarrow> string" where
  "extractPackageName pkgPath =
     (let pkgName = TrimPrefix pkgPath ''node_modules/'' in
      if HasPrefix pkgName ''@'' \<and> Contains pkgName ''/'' \<and>
         \<not> Contains pkgName ''/node_modules/''
      then pkgName
      else
        let parts = Split pkgName ''/node_modules/'' in
        if length parts > 1 then parts ! (length parts - 1) else pkgName)"

text \<open>
  The registry \<^verbatim>\<open>infectedPackages\<close> is a package-level variable declared in a file that
  is not part of the sources at hand; it is a parameter of the model. The loop of
  \<^verbatim>\<open>isInfectedPackage\<close> runs over it from the front and returns at the first equal
  string.
\<close>

fun isInfectedPackage :: "string list \<Rightarrow> string \<Rightarrow> bool" where
  "isInfectedPackage [] fullPkg = False"
| "isInfectedPackage (infectedPkg # rest) fullPkg =
     (if fullPkg = infectedPkg then True else isInfectedPackage rest fullPkg)"

section \<open>Values of type \<^verbatim>\<open>interface{}\<close>\<close>

text \<open>
  \<^verbatim>\<open>yaml.Unmarshal\<close> and \<^verbatim>\<open>json.Unmarshal\<close> fill a \<^verbatim>\<open>map[string]interface{}\<close>. The
  program inspects the values only by the type assertions \<^verbatim>\<open>.(string)\<close>,
  \<^verbatim>\<open>.([]interface{})\<close> and \<^verbatim>\<open>.(map[string]interface{})\<close>, each in its comma-ok form.
  The YAML parser gives a mapping whose keys are all strings the type
  \<^verbatim>\<open>map[string]interface{}\<close> (\<open>DMap\<close>) and a mapping with a key that is not a string the
  type \<^verbatim>\<open>map[interface{}]interface{}\<close> (\<open>DGeneralMap\<close>). \<open>DOpaque\<close> stands for a value of
  any other dynamic type (a float, a timestamp). Every one of the three assertions fails
  on \<open>DGeneralMap\<close> and on \<open>DOpaque\<close>.

  A Go map is modelled as an association list; the order of the list is the order in
  which a \<^verbatim>\<open>range\<close> loop visits the map (Go leaves that order unspecified, so
  statements are made for every list). Indexing a map with a key it does not hold
  gives the zero value, which for \<^verbatim>\<open>interface{}\<close> is \<^verbatim>\<open>nil\<close>.
\<close>

datatype dyn =
    DNil
  | DBool bool
  | DNumber int
  | DString string
  | DSlice "dyn list"
  | DMap "(string \<times> dyn) list"
  | DGeneralMap "(dyn \<times> dyn) list"
  | DOpaque

definition lookup :: "(string \<times> dyn) list \<Rightarrow> string \<Rightarrow> dyn" where
  "lookup m key = (case map_of m key of None \<Rightarrow> DNil | Some v \<Rightarrow> v)"

fun assertString :: "dyn \<Rightarrow> string option" where
  "assertString (DString s) = Some s"
| "assertString v = None"

fun assertSlice :: "dyn \<Rightarrow> dyn list option" where
  "assertSlice (DSlice xs) = Some xs"
| "assertSlice v = None"

fun assertMap :: "dyn \<Rightarrow> (string \<times> dyn) list option" where
  "assertMap (DMap m) = Some m"
| "assertMap v = None"

section \<open>The usage mapping\<close>

text \<open>
  \<^verbatim>\<open>Repos\<close> is a \<^verbatim>\<open>map[string]struct{}\<close> used as a set: a list without repetitions
  here. \<^verbatim>\<open>InfectedPackages\<close> is a slice; the \<^verbatim>\<open>nil\<close> slice and the empty slice are both
  \<open>[]\<close> (the program only takes its length and prints it).
\<close>

record ActionInfo =
  Repos :: "string list"
  UsesNpm :: bool
  IsInfected :: bool
  InfectedPackages :: "string list"
  Analyzed :: bool

text \<open>
  \<^verbatim>\<open>usesRepos\<close> is a \<^verbatim>\<open>map[string]*ActionInfo\<close>. Every pointer in it is allocated by
  \<^verbatim>\<open>addActionUsage\<close> for its own key, so no two keys share an \<^verbatim>\<open>ActionInfo\<close> and the
  map is modelled by value. A key that is absent reads as the \<^verbatim>\<open>nil\<close> pointer. The list
  keeps the entries in the order of their creation; a \<^verbatim>\<open>range\<close> loop over the map takes
  the entries as a list in the order of its visit.
\<close>

type_synonym usage = "(string \<times> ActionInfo) list"

definition addActionUsage :: "string \<Rightarrow> string \<Rightarrow> usage \<Rightarrow> usage" where
  "addActionUsage actionUse repoName usesRepos =
     (let usesRepos1 =
        (if map_of usesRepos actionUse = None
         then AList.update actionUse
                \<lparr>Repos = [], UsesNpm = False, IsInfected = False,
                 InfectedPackages = [], Analyzed = False\<rparr> usesRepos
         else usesRepos)
      in AList.map_entry actionUse
           (\<lambda>info. info\<lparr>Repos := List.insert repoName (Repos info)\<rparr>) usesRepos1)"

section \<open>The workflow scanner\<close>

text \<open>The loop over the steps of one job, with its \<^verbatim>\<open>continue\<close>.\<close>

fun processSteps :: "dyn list \<Rightarrow> string \<Rightarrow> usage \<Rightarrow> usage" where
  "processSteps [] repoName usesRepos = usesRepos"
| "processSteps (step # steps) repoName usesRepos =
     (case assertMap step of
        None \<Rightarrow> processSteps steps repoName usesRepos
      | Some stepMap \<Rightarrow>
          (case assertString (lookup stepMap ''uses'') of
             Some uses \<Rightarrow> processSteps steps repoName (addActionUsage uses repoName usesRepos)
           | None \<Rightarrow> processSteps steps repoName usesRepos))"

definition processJobSteps :: "dyn \<Rightarrow> string \<Rightarrow> usage \<Rightarrow> usage" where
  "processJobSteps job repoName usesRepos =
     (case assertMap job of
        None \<Rightarrow> usesRepos
      | Some jobMap \<Rightarrow>
          (case assertSlice (lookup jobMap ''steps'') of
             None \<Rightarrow> usesRepos
           | Some steps \<Rightarrow> processSteps steps repoName usesRepos))"

text \<open>The loop over the jobs.\<close>

fun processJobs :: "(string \<times> dyn) list \<Rightarrow> string \<Rightarrow> usage \<Rightarrow> usage" where
  "processJobs [] repoName usesRepos = usesRepos"
| "processJobs ((jobId, job) # jobs) repoName usesRepos =
     processJobs jobs repoName (processJobSteps job repoName usesRepos)"

text \<open>
  What the program writes: lines on standard output (\<^verbatim>\<open>fmt.Printf\<close>, \<^verbatim>\<open>fmt.Println\<close>)
  and messages of the logger (\<^verbatim>\<open>log.Printf\<close>, which writes to standard error). An item
  is one line, without its newline and without the logger's time stamp.
\<close>

datatype printed = Stdout string | Log string

text \<open>
  The YAML parser is an external collaborator: \<open>yamlUnmarshal\<close> is its result for a
  document, \<open>Inl\<close> the error (printed with \<^verbatim>\<open>%v\<close>), \<open>Inr\<close> the map it filled.
\<close>

definition extractActionsFromWorkflow ::
  "(string \<Rightarrow> string + (string \<times> dyn) list) \<Rightarrow> string \<Rightarrow> string \<Rightarrow> usage \<Rightarrow>
     usage \<times> printed list" where
  "extractActionsFromWorkflow yamlUnmarshal workflowContent repoName usesRepos =
     (case yamlUnmarshal workflowContent of
        Inl err \<Rightarrow>
          (usesRepos, [Log (''Error unmarshalling YAML in '' @ repoName @ '': '' @ err)])
      | Inr workflow \<Rightarrow>
          (case assertMap (lookup workflow ''jobs'') of
             None \<Rightarrow> (usesRepos, [])
           | Some jobs \<Rightarrow> (processJobs jobs repoName usesRepos, [])))"

section \<open>The hosting platform's API\<close>

text \<open>
  The client library is an external collaborator. An error it returns is either a
  \<^verbatim>\<open>*github.ErrorResponse\<close>, which the library builds for an HTTP error response such as
  a 404 or a 500 (its status code is kept here: 404 is "not found"), or a value of
  another type (a rate-limit error, a network error). \<open>Error\<close> is the text \<^verbatim>\<open>%v\<close> prints.
\<close>

datatype gh_error = ErrorResponse nat string | OtherError string

fun Error :: "gh_error \<Rightarrow> string" where
  "Error (ErrorResponse status msg) = msg"
| "Error (OtherError msg) = msg"

text \<open>
  A \<^verbatim>\<open>*github.RepositoryContent\<close>, by the accessors the program calls. \<open>GetContent\<close>
  is the result of the method of that name: \<open>Inl\<close> a decoding error, \<open>Inr\<close> the content.
\<close>

record RepositoryContent =
  GetType :: string
  GetName :: string
  GetPath :: string
  GetContent :: "string + string"

text \<open>
  \<^verbatim>\<open>GetContents\<close> returns \<^verbatim>\<open>(fileContent, directoryContent, resp, err)\<close>: an error, or a
  file (and then \<^verbatim>\<open>directoryContent\<close> is \<^verbatim>\<open>nil\<close>), or a directory listing (and then
  \<^verbatim>\<open>fileContent\<close> is \<^verbatim>\<open>nil\<close>).
\<close>

datatype contents =
    Failed gh_error
  | FileContent RepositoryContent
  | DirectoryContent "RepositoryContent list"

text \<open>
  Everything outside the program: the API (\<open>ListByOrg org page\<close> gives the names of the
  repositories of the page and \<^verbatim>\<open>resp.NextPage\<close>, or the error as \<^verbatim>\<open>%v\<close> prints it),
  the two parsers, the registry \<^verbatim>\<open>infectedPackages\<close> and the process environment.
\<close>

record env =
  ListByOrg :: "string \<Rightarrow> int \<Rightarrow> string + (string list \<times> int)"
  GetContents :: "string \<Rightarrow> string \<Rightarrow> string \<Rightarrow> contents"
  yamlUnmarshal :: "string \<Rightarrow> string + (string \<times> dyn) list"
  jsonUnmarshal :: "string \<Rightarrow> string + (string \<times> dyn) list"
  infectedPackages :: "string list"
  Getenv :: "string \<Rightarrow> string"

text \<open>
  How a call can end the process: a method called on a \<^verbatim>\<open>nil\<close>
  \<^verbatim>\<open>*RepositoryContent\<close> that reads a field of it, or \<^verbatim>\<open>log.Fatalf\<close>.
\<close>

datatype abort = NilDereference | Fatal string

section \<open>Scanning the repositories\<close>

definition isWorkflowFile :: "RepositoryContent \<Rightarrow> bool" where
  "isWorkflowFile content =
     (GetType content = ''file'' \<and>
      (HasSuffix (GetName content) ''.yml'' \<or> HasSuffix (GetName content) ''.yaml''))"

definition processWorkflowFile ::
  "env \<Rightarrow> string \<Rightarrow> string \<Rightarrow> RepositoryContent \<Rightarrow> usage \<Rightarrow> abort + usage \<times> printed list" where
  "processWorkflowFile e org repoName content usesRepos =
     (case GetContents e org repoName (GetPath content) of
        Failed err \<Rightarrow>
          Inr (usesRepos,
               [Log (''Error getting file '' @ GetPath content @ '' in '' @ repoName @
                     '': '' @ Error err)])
      | DirectoryContent listing \<Rightarrow> Inl NilDereference
      | FileContent fileContent \<Rightarrow>
          (case GetContent fileContent of
             Inl err \<Rightarrow>
               Inr (usesRepos,
                    [Log (''Error decoding content of '' @ GetPath content @ '' in '' @
                          repoName @ '': '' @ err)])
           | Inr decodedContent \<Rightarrow>
               Inr (extractActionsFromWorkflow (yamlUnmarshal e) decodedContent repoName
                      usesRepos)))"

text \<open>The loop over the entries of the workflow directory.\<close>

fun processContents ::
  "env \<Rightarrow> string \<Rightarrow> string \<Rightarrow> RepositoryContent list \<Rightarrow> usage \<Rightarrow>
     abort + usage \<times> printed list" where
  "processContents e org repoName [] usesRepos = Inr (usesRepos, [])"
| "processContents e org repoName (content # rest) usesRepos =
     (if isWorkflowFile content
      then (case processWorkflowFile e org repoName content usesRepos of
              Inl a \<Rightarrow> Inl a
            | Inr (usesRepos1, out1) \<Rightarrow>
                (case processContents e org repoName rest usesRepos1 of
                   Inl a \<Rightarrow> Inl a
                 | Inr (usesRepos2, out2) \<Rightarrow> Inr (usesRepos2, out1 @ out2)))
      else processContents e org repoName rest usesRepos)"

definition processRepository ::
  "env \<Rightarrow> string \<Rightarrow> string \<Rightarrow> usage \<Rightarrow> abort + usage \<times> printed list" where
  "processRepository e org repoName usesRepos =
     (case GetContents e org repoName ''.github/workflows'' of
        Failed err \<Rightarrow>
          (case err of
             ErrorResponse status msg \<Rightarrow> Inr (usesRepos, [])
           | OtherError msg \<Rightarrow>
               Inr (usesRepos,
                    [Log (''Error getting contents of .github/workflows in '' @ repoName @
                          '': '' @ Error err)]))
      | FileContent fileContent \<Rightarrow> Inr (usesRepos, [])
      | DirectoryContent listing \<Rightarrow> processContents e org repoName listing usesRepos)"

text \<open>
  Formatting: \<^verbatim>\<open>%d\<close> of an \<^verbatim>\<open>int\<close>, \<^verbatim>\<open>%t\<close> of a \<^verbatim>\<open>bool\<close>, \<^verbatim>\<open>%v\<close> of a \<^verbatim>\<open>[]string\<close>
  (the elements between brackets, separated by one space).
\<close>

function decimal :: "nat \<Rightarrow> string" where
  "decimal n =
     (if n < 10 then [''0123456789'' ! n]
      else decimal (n div 10) @ [''0123456789'' ! (n mod 10)])"
  by pat_completeness auto
termination
  by (relation "measure id") auto

declare decimal.simps [simp del]

definition formatInt :: "int \<Rightarrow> string" where
  "formatInt i = (if i < 0 then ''-'' @ decimal (nat (- i)) else decimal (nat i))"

definition formatBool :: "bool \<Rightarrow> string" where
  "formatBool b = (if b then ''true'' else ''false'')"

fun joinSpace :: "string list \<Rightarrow> string" where
  "joinSpace [] = []"
| "joinSpace [x] = x"
| "joinSpace (x # y # ys) = x @ '' '' @ joinSpace (y # ys)"

definition formatStrings :: "string list \<Rightarrow> string" where
  "formatStrings xs = ''['' @ joinSpace xs @ '']''"

text \<open>
  The configuration constants of the source. The counters of type \<^verbatim>\<open>int\<close> (repositories
  seen, page numbers) are unbounded integers here: they stay far below the range of a
  machine word.
\<close>

definition maxRepos :: int where
  "maxRepos = 0"

definition enableLimit :: bool where
  "enableLimit = (maxRepos > 0)"

definition shouldStopScanning :: "int \<Rightarrow> bool" where
  "shouldStopScanning repoCount = (enableLimit \<and> repoCount \<ge> maxRepos)"

definition logRepoProgress :: "int \<Rightarrow> string \<Rightarrow> printed list" where
  "logRepoProgress repoCount repoName =
     (if enableLimit
      then [Stdout (''Processing repository '' @ formatInt (repoCount + 1) @ ''/'' @
                    formatInt maxRepos @ '': '' @ repoName)]
      else [Stdout (''Processing repository: '' @ repoName)])"

text \<open>
  The loop over the repositories of one page. The result says whether the loop left the
  function by its \<^verbatim>\<open>return\<close>, and gives the counter and the mapping.
\<close>

fun scanPage ::
  "env \<Rightarrow> string \<Rightarrow> string list \<Rightarrow> int \<Rightarrow> usage \<Rightarrow>
     abort + (bool \<times> int \<times> usage) \<times> printed list" where
  "scanPage e org [] repoCount usesRepos = Inr ((False, repoCount, usesRepos), [])"
| "scanPage e org (repoName # repos) repoCount usesRepos =
     (if shouldStopScanning repoCount
      then Inr ((True, repoCount, usesRepos),
                [Stdout (''Reached maximum of '' @ formatInt maxRepos @
                         '' repositories for testing.'')])
      else (case processRepository e org repoName usesRepos of
              Inl a \<Rightarrow> Inl a
            | Inr (usesRepos1, out1) \<Rightarrow>
                (case scanPage e org repos (repoCount + 1) usesRepos1 of
                   Inl a \<Rightarrow> Inl a
                 | Inr (r, out2) \<Rightarrow>
                     Inr (r, logRepoProgress repoCount repoName @ out1 @ out2))))"

text \<open>
  The loop over the pages ends when the API reports no next page, which the program
  cannot know in advance: \<open>fuel\<close> bounds the number of pages fetched, and \<open>None\<close> means
  that the bound was reached. A listing error ends the process (\<^verbatim>\<open>log.Fatalf\<close>).
\<close>

fun scanPages ::
  "nat \<Rightarrow> env \<Rightarrow> string \<Rightarrow> int \<Rightarrow> int \<Rightarrow> usage \<Rightarrow> (abort + usage \<times> printed list) option" where
  "scanPages 0 e org page repoCount usesRepos = None"
| "scanPages (Suc fuel) e org page repoCount usesRepos =
     (case ListByOrg e org page of
        Inl err \<Rightarrow> Some (Inl (Fatal (''Error listing repositories: '' @ err)))
      | Inr (repos, nextPage) \<Rightarrow>
          (case scanPage e org repos repoCount usesRepos of
             Inl a \<Rightarrow> Some (Inl a)
           | Inr ((returned, repoCount1, usesRepos1), out1) \<Rightarrow>
               if returned \<or> shouldStopScanning repoCount1 \<or> nextPage = 0
               then Some (Inr (usesRepos1, out1))
               else (case scanPages fuel e org nextPage repoCount1 usesRepos1 of
                       None \<Rightarrow> None
                     | Some (Inl a) \<Rightarrow> Some (Inl a)
                     | Some (Inr (usesRepos2, out2)) \<Rightarrow> Some (Inr (usesRepos2, out1 @ out2)))))"

definition scanRepositories ::
  "nat \<Rightarrow> env \<Rightarrow> string \<Rightarrow> (abort + usage \<times> printed list) option" where
  "scanRepositories fuel e org = scanPages fuel e org 0 0 []"

section \<open>The dependency analyzer\<close>

definition parseActionReference :: "string \<Rightarrow> string \<times> string" where
  "parseActionReference actionUse =
     (let parts = Split (Split actionUse ''@'' ! 0) ''/'' in
      if length parts < 2 then ('''', '''') else (parts ! 0, parts ! 1))"

definition warningSign :: string where
  "warningSign = [CHR 0xE2, CHR 0x9A, CHR 0xA0, CHR 0xEF, CHR 0xB8, CHR 0x8F]"

text \<open>The loop over the \<^verbatim>\<open>packages\<close> of a lock file; \<open>foundInfected\<close> is its accumulator.\<close>

fun collectInfected :: "string list \<Rightarrow> (string \<times> dyn) list \<Rightarrow> string list \<Rightarrow> string list" where
  "collectInfected registry [] foundInfected = foundInfected"
| "collectInfected registry ((pkgPath, pkgInfo) # packages) foundInfected =
     (if pkgPath = '''' then collectInfected registry packages foundInfected
      else
        (case assertMap pkgInfo of
           None \<Rightarrow> collectInfected registry packages foundInfected
         | Some pkgData \<Rightarrow>
             (case assertString (lookup pkgData ''version'') of
                None \<Rightarrow> collectInfected registry packages foundInfected
              | Some version \<Rightarrow>
                  (let pkgName = extractPackageName pkgPath;
                       fullPkg = pkgName @ ''@'' @ version
                   in if isInfectedPackage registry fullPkg
                      then collectInfected registry packages (foundInfected @ [fullPkg])
                      else collectInfected registry packages foundInfected))))"

definition checkPackagesForInfection ::
  "string list \<Rightarrow> (string \<times> dyn) list \<Rightarrow> ActionInfo \<Rightarrow> ActionInfo \<times> printed list" where
  "checkPackagesForInfection registry lockJSON info =
     (case assertMap (lookup lockJSON ''packages'') of
        None \<Rightarrow> (info, [])
      | Some packages \<Rightarrow>
          (let foundInfected = collectInfected registry packages [] in
           if length foundInfected > 0
           then (info\<lparr>IsInfected := True, InfectedPackages := foundInfected\<rparr>,
                 [Stdout (''  '' @ warningSign @ ''  INFECTED with '' @
                          formatInt (int (length foundInfected)) @ '' packages: '' @
                          formatStrings foundInfected)])
           else (info, [])))"

text \<open>
  \<^verbatim>\<open>analyzePackageLockFile\<close> returns a \<^verbatim>\<open>bool\<close> and changes \<^verbatim>\<open>*info\<close>: the model returns
  both. When the path is a directory \<^verbatim>\<open>packageLock\<close> is \<^verbatim>\<open>nil\<close> and
  \<^verbatim>\<open>packageLock.GetContent()\<close> reads a field through it.
\<close>

definition analyzePackageLockFile ::
  "env \<Rightarrow> string \<Rightarrow> string \<Rightarrow> ActionInfo \<Rightarrow> abort + (bool \<times> ActionInfo) \<times> printed list" where
  "analyzePackageLockFile e owner repo info =
     (case GetContents e owner repo ''package-lock.json'' of
        Failed err \<Rightarrow> Inr ((False, info), [])
      | DirectoryContent listing \<Rightarrow> Inl NilDereference
      | FileContent packageLock \<Rightarrow>
          (let info1 = info\<lparr>UsesNpm := True\<rparr>;
               out1 = [Stdout (''  Found package-lock.json for '' @ owner @ ''/'' @ repo)]
           in case GetContent packageLock of
                Inl err \<Rightarrow>
                  Inr ((True, info1),
                       out1 @ [Stdout (''  Error reading package-lock.json content for '' @
                                       owner @ ''/'' @ repo @ '': '' @ err)])
              | Inr content \<Rightarrow>
                  (case jsonUnmarshal e content of
                     Inl err \<Rightarrow>
                       Inr ((True, info1),
                            out1 @ [Stdout (''  Error parsing package-lock.json for '' @
                                            owner @ ''/'' @ repo @ '': '' @ err)])
                   | Inr lockJSON \<Rightarrow>
                       (case checkPackagesForInfection (infectedPackages e) lockJSON info1 of
                          (info2, out2) \<Rightarrow> Inr ((True, info2), out1 @ out2)))))"

definition analyzePackageJsonFile ::
  "env \<Rightarrow> string \<Rightarrow> string \<Rightarrow> ActionInfo \<Rightarrow> ActionInfo \<times> printed list" where
  "analyzePackageJsonFile e owner repo info =
     (case GetContents e owner repo ''package.json'' of
        Failed err \<Rightarrow>
          (info,
           [Stdout (''  No package.json or package-lock.json found for '' @ owner @ ''/'' @
                    repo)])
      | FileContent fileContent \<Rightarrow>
          (info\<lparr>UsesNpm := True\<rparr>,
           [Stdout (''  Found package.json (no lock file) for '' @ owner @ ''/'' @ repo)])
      | DirectoryContent listing \<Rightarrow>
          (info\<lparr>UsesNpm := True\<rparr>,
           [Stdout (''  Found package.json (no lock file) for '' @ owner @ ''/'' @ repo)]))"

definition analyzeActionDependencies ::
  "env \<Rightarrow> string \<Rightarrow> string \<Rightarrow> ActionInfo \<Rightarrow> abort + ActionInfo \<times> printed list" where
  "analyzeActionDependencies e owner repo info =
     (case analyzePackageLockFile e owner repo info of
        Inl a \<Rightarrow> Inl a
      | Inr ((handled, info1), out1) \<Rightarrow>
          if handled then Inr (info1, out1)
          else (case analyzePackageJsonFile e owner repo info1 of
                  (info2, out2) \<Rightarrow> Inr (info2, out1 @ out2)))"

text \<open>
  The loop of \<^verbatim>\<open>analyzeActions\<close> over the usage mapping. It changes the \<^verbatim>\<open>ActionInfo\<close>
  behind the pointer of the entry it visits; keys are neither added nor removed.
\<close>

fun analyzeEntries :: "env \<Rightarrow> usage \<Rightarrow> abort + usage \<times> printed list" where
  "analyzeEntries e [] = Inr ([], [])"
| "analyzeEntries e ((actionUse, info) # entries) =
     (if Analyzed info
      then (case analyzeEntries e entries of
              Inl a \<Rightarrow> Inl a
            | Inr (entries1, out2) \<Rightarrow> Inr ((actionUse, info) # entries1, out2))
      else
        (case parseActionReference actionUse of
           (owner, repo) \<Rightarrow>
             if owner = '''' \<or> repo = ''''
             then (case analyzeEntries e entries of
                     Inl a \<Rightarrow> Inl a
                   | Inr (entries1, out2) \<Rightarrow> Inr ((actionUse, info) # entries1, out2))
             else
               (case analyzeActionDependencies e owner repo info of
                  Inl a \<Rightarrow> Inl a
                | Inr (info1, out1) \<Rightarrow>
                    (case analyzeEntries e entries of
                       Inl a \<Rightarrow> Inl a
                     | Inr (entries1, out2) \<Rightarrow>
                         Inr ((actionUse, info1\<lparr>Analyzed := True\<rparr>) # entries1,
                              [Stdout (''Analyzing '' @ owner @ ''/'' @ repo @ ''...'')] @
                              out1 @ out2)))))"

definition analyzeActions :: "env \<Rightarrow> usage \<Rightarrow> abort + usage \<times> printed list" where
  "analyzeActions e usesRepos =
     (case analyzeEntries e usesRepos of
        Inl a \<Rightarrow> Inl a
      | Inr (usesRepos1, out1) \<Rightarrow>
          Inr (usesRepos1, [Stdout '''', Stdout ''Analyzing actions...''] @ out1))"

section \<open>The reporter and the whole run\<close>

text \<open>
  Go leaves the order of every \<^verbatim>\<open>range\<close> loop over a map open, and chooses it anew for
  each loop. The loops over the usage mapping (in \<^verbatim>\<open>analyzeActions\<close> and in
  \<^verbatim>\<open>printResults\<close>) and over the repositories of an entry are given their order from
  outside: \<open>visitRepos\<close>, \<open>visitAnalysis\<close> and \<open>visitReport\<close> return the elements of the map
  at hand in the order of the visit, each a permutation of the list they are given.
\<close>

definition printEntry ::
  "(string list \<Rightarrow> string list) \<Rightarrow> string \<Rightarrow> ActionInfo \<Rightarrow> printed list" where
  "printEntry visitRepos use info =
     [Stdout (use @ '':''), Stdout (''  Uses npm: '' @ formatBool (UsesNpm info))] @
     (if IsInfected info
      then [Stdout (''  '' @ warningSign @ ''  INFECTED: '' @ formatBool (IsInfected info)),
            Stdout (''  Infected packages: '' @ formatStrings (InfectedPackages info))]
      else [Stdout (''  Infected: '' @ formatBool (IsInfected info))]) @
     [Stdout ''  Used in repositories:''] @
     map (\<lambda>repo. Stdout (''    - '' @ repo)) (visitRepos (Repos info)) @
     [Stdout '''']"

definition printResults ::
  "(usage \<Rightarrow> usage) \<Rightarrow> (string list \<Rightarrow> string list) \<Rightarrow> usage \<Rightarrow> printed list" where
  "printResults visitReport visitRepos usesRepos =
     [Stdout '''', Stdout ''Actions and the repositories they are used in:''] @
     concat (map (\<lambda>(use, info). printEntry visitRepos use info) (visitReport usesRepos))"

definition getRequiredEnv :: "env \<Rightarrow> string \<Rightarrow> abort + string" where
  "getRequiredEnv e key =
     (let val = Getenv e key in
      if val = '''' then Inl (Fatal (key @ '' environment variable is not set''))
      else Inr val)"

text \<open>
  \<^verbatim>\<open>main\<close>: the scan, the analysis, the report. The result is what the run printed, or
  how it was aborted; \<open>None\<close> when the page bound \<open>fuel\<close> was reached.
\<close>

definition main ::
  "nat \<Rightarrow> (usage \<Rightarrow> usage) \<Rightarrow> (usage \<Rightarrow> usage) \<Rightarrow> (string list \<Rightarrow> string list) \<Rightarrow> env \<Rightarrow>
     (abort + printed list) option" where
  "main fuel visitAnalysis visitReport visitRepos e =
     (case getRequiredEnv e ''GITHUB_TOKEN'' of
        Inl a \<Rightarrow> Some (Inl a)
      | Inr token \<Rightarrow>
          (case getRequiredEnv e ''GITHUB_ORG'' of
             Inl a \<Rightarrow> Some (Inl a)
           | Inr org \<Rightarrow>
               (case scanRepositories fuel e org of
                  None \<Rightarrow> None
                | Some (Inl a) \<Rightarrow> Some (Inl a)
                | Some (Inr (usesRepos, out1)) \<Rightarrow>
                    (case analyzeActions e (visitAnalysis usesRepos) of
                       Inl a \<Rightarrow> Some (Inl a)
                     | Inr (usesRepos1, out2) \<Rightarrow>
                         Some (Inr ([Stdout (''Scanning repositories in organization: '' @ org)] @
                                    out1 @ out2 @
                                    printResults visitReport visitRepos usesRepos1))))))"

section \<open>The specification's notions\<close>

text \<open>
  The definitions of this section are not taken from the code. They write down the
  notions of the specification that the theorems below compare the code with, and the
  notions in which the properties of the scan and of the analysis are stated.
\<close>

text \<open>
  The \<^verbatim>\<open>uses\<close> strings of a workflow document, where a mapping is one whose keys are all
  strings (\<open>DMap\<close>): those of every step that is a mapping with a string \<^verbatim>\<open>uses\<close>, in
  the \<^verbatim>\<open>steps\<close> sequence of every job that is a mapping, of the \<^verbatim>\<open>jobs\<close> mapping of the
  document. A document without a \<^verbatim>\<open>jobs\<close> mapping, a job without a \<^verbatim>\<open>steps\<close> sequence and
  a step without a string \<^verbatim>\<open>uses\<close> have none, and so has a mapping with a key that is not
  a string.
\<close>

definition stepUses :: "dyn \<Rightarrow> string list" where
  "stepUses step =
     (case assertMap step of
        None \<Rightarrow> []
      | Some stepMap \<Rightarrow>
          (case assertString (lookup stepMap ''uses'') of None \<Rightarrow> [] | Some uses \<Rightarrow> [uses]))"

definition jobUses :: "dyn \<Rightarrow> string list" where
  "jobUses job =
     (case assertMap job of
        None \<Rightarrow> []
      | Some jobMap \<Rightarrow>
          (case assertSlice (lookup jobMap ''steps'') of
             None \<Rightarrow> []
           | Some steps \<Rightarrow> concat (map stepUses steps)))"

definition workflowUses :: "(string \<times> dyn) list \<Rightarrow> string list" where
  "workflowUses workflow =
     (case assertMap (lookup workflow ''jobs'') of
        None \<Rightarrow> []
      | Some jobs \<Rightarrow> concat (map (\<lambda>(jobId, job). jobUses job) jobs))"

text \<open>
  The field of a mapping under a string key, whatever the Go type the parser gave the
  mapping: this is what the words "a step that has a string \<^verbatim>\<open>uses\<close> field" look at.
  \<open>mixedKeysStep\<close> is the step \<^verbatim>\<open>{uses: a/b@v1, 2: x}\<close> as the YAML parser returns it, and
  \<open>mixedKeysWorkflow\<close> a document with the job \<^verbatim>\<open>build\<close> whose only step it is.
\<close>

definition mappingField :: "dyn \<Rightarrow> string \<Rightarrow> dyn" where
  "mappingField v key =
     (case v of
        DMap m \<Rightarrow> lookup m key
      | DGeneralMap m \<Rightarrow> (case map_of m (DString key) of None \<Rightarrow> DNil | Some x \<Rightarrow> x)
      | _ \<Rightarrow> DNil)"

definition mixedKeysStep :: dyn where
  "mixedKeysStep =
     DGeneralMap [(DString ''uses'', DString ''a/b@v1''), (DNumber 2, DString ''x'')]"

definition mixedKeysWorkflow :: "(string \<times> dyn) list" where
  "mixedKeysWorkflow =
     [(''jobs'', DMap [(''build'', DMap [(''steps'', DSlice [mixedKeysStep])])])]"

text \<open>
  The \<^verbatim>\<open>name@version\<close> strings of a \<^verbatim>\<open>packages\<close> mapping: one for every path other than
  the empty root path whose metadata is a mapping with a string \<^verbatim>\<open>version\<close>.
\<close>

definition packageVersions :: "(string \<times> dyn) list \<Rightarrow> string list" where
  "packageVersions packages =
     List.map_filter
       (\<lambda>(pkgPath, pkgInfo).
          if pkgPath = '''' then None
          else (case assertMap pkgInfo of
                  None \<Rightarrow> None
                | Some pkgData \<Rightarrow>
                    (case assertString (lookup pkgData ''version'') of
                       None \<Rightarrow> None
                     | Some version \<Rightarrow> Some (extractPackageName pkgPath @ ''@'' @ version))))
       packages"

text \<open>
  The substring after the last occurrence of a separator: \<open>afterLastOcc sep s\<close> is \<open>None\<close>
  when \<open>sep\<close> does not occur in \<open>s\<close>, and otherwise what follows the occurrence that
  starts last. \<open>specPackageName\<close> is the package-name extraction as the specification
  words it: strip one leading \<^verbatim>\<open>node_modules/\<close>; keep a scoped name without a further
  \<^verbatim>\<open>/node_modules/\<close>; otherwise take what follows the last \<^verbatim>\<open>/node_modules/\<close>, and the
  whole remainder when there is none.
\<close>

fun afterLastOcc :: "string \<Rightarrow> string \<Rightarrow> string option" where
  "afterLastOcc sep [] = (if sep = [] then Some [] else None)"
| "afterLastOcc sep (c # cs) =
     (case afterLastOcc sep cs of
        Some r \<Rightarrow> Some r
      | None \<Rightarrow> if HasPrefix (c # cs) sep then Some (drop (length sep) (c # cs)) else None)"

definition specPackageName :: "string \<Rightarrow> string" where
  "specPackageName pkgPath =
     (let rest = TrimPrefix pkgPath ''node_modules/'' in
      if HasPrefix rest ''@'' \<and> Contains rest ''/'' \<and> \<not> Contains rest ''/node_modules/''
      then rest
      else (case afterLastOcc ''/node_modules/'' rest of None \<Rightarrow> rest | Some r \<Rightarrow> r))"

text \<open>
  An entry as \<^verbatim>\<open>addActionUsage\<close> creates it, and the state of an entry the analysis has
  not touched: only \<open>Repos\<close> differs from the fresh entry.
\<close>

definition freshInfo :: ActionInfo where
  "freshInfo =
     \<lparr>Repos = [], UsesNpm = False, IsInfected = False, InfectedPackages = [],
      Analyzed = False\<rparr>"

definition untouched :: "ActionInfo \<Rightarrow> bool" where
  "untouched info = (info = freshInfo\<lparr>Repos := Repos info\<rparr>)"

text \<open>A reference that \<^verbatim>\<open>analyzeActions\<close> does not skip: owner and repository are not empty.\<close>

definition wellFormedReference :: "string \<Rightarrow> bool" where
  "wellFormedReference actionUse =
     (fst (parseActionReference actionUse) \<noteq> '''' \<and> snd (parseActionReference actionUse) \<noteq> '''')"

text \<open>
  A lock file that was fetched and gives no \<^verbatim>\<open>packages\<close> mapping: its content does not
  decode, or does not parse as JSON, or parses to an object without such a mapping.
\<close>

definition lockWithoutPackages :: "env \<Rightarrow> RepositoryContent \<Rightarrow> bool" where
  "lockWithoutPackages e packageLock =
     (case GetContent packageLock of
        Inl err \<Rightarrow> True
      | Inr content \<Rightarrow>
          (case jsonUnmarshal e content of
             Inl err \<Rightarrow> True
           | Inr lockJSON \<Rightarrow> assertMap (lookup lockJSON ''packages'') = None))"

text \<open>The environment in which the fetch of \<^verbatim>\<open>package.json\<close> gives \<open>c\<close> for every repository.\<close>

definition withPackageJson :: "contents \<Rightarrow> env \<Rightarrow> env" where
  "withPackageJson c e =
     e\<lparr>GetContents :=
         (\<lambda>owner repo path. if path = ''package.json'' then c else GetContents e owner repo path)\<rparr>"

text \<open>
  A sequence of calls of \<^verbatim>\<open>addActionUsage\<close>, each given as the pair of its action
  reference and repository name. The scan changes the mapping in no other way.
\<close>

definition addAll :: "(string \<times> string) list \<Rightarrow> usage \<Rightarrow> usage" where
  "addAll calls usesRepos =
     fold (\<lambda>(actionUse, repoName). addActionUsage actionUse repoName) calls usesRepos"

text \<open>
  How the analysis pass relates an entry before it to the entry after it: an entry that
  is already analyzed, or whose reference is not well formed, is left as it is; any
  other entry is the result of \<^verbatim>\<open>analyzeActionDependencies\<close> for the owner and repository
  of its reference, marked as analyzed.
\<close>

definition analysisOf :: "env \<Rightarrow> string \<times> ActionInfo \<Rightarrow> string \<times> ActionInfo \<Rightarrow> bool" where
  "analysisOf e before after =
     (fst after = fst before \<and>
      (if Analyzed (snd before) \<or> \<not> wellFormedReference (fst before)
       then snd after = snd before
       else (case analyzeActionDependencies e (fst (parseActionReference (fst before)))
                    (snd (parseActionReference (fst before))) (snd before) of
               Inl a \<Rightarrow> False
             | Inr (info1, out1) \<Rightarrow> snd after = info1\<lparr>Analyzed := True\<rparr>)))"

section \<open>An example organization\<close>

text \<open>
  One organization \<^verbatim>\<open>org\<close> with the repositories \<^verbatim>\<open>r1\<close> (one workflow file), \<^verbatim>\<open>r2\<close>
  (no workflow directory) and, on a second page, \<^verbatim>\<open>r3\<close> (the request times out). The
  workflow of \<^verbatim>\<open>r1\<close> uses four actions: \<^verbatim>\<open>actor/action\<close> has a lock file with
  \<^verbatim>\<open>left-pad\<close> 1.3.0, \<^verbatim>\<open>actions/checkout\<close> has only a \<^verbatim>\<open>package.json\<close>, \<^verbatim>\<open>actor/broken\<close> has
  a lock file that is not JSON, and \<^verbatim>\<open>docker://alpine\<close> is no repository reference.
\<close>

definition exampleWorkflow :: "(string \<times> dyn) list" where
  "exampleWorkflow =
     [(''name'', DString ''ci''),
      (''jobs'', DMap
         [(''build'', DMap
             [(''runs-on'', DString ''ubuntu-latest''),
              (''steps'', DSlice
                 [DMap [(''uses'', DString ''actions/checkout@v4'')],
                  DMap [(''run'', DString ''make'')],
                  DMap [(''uses'', DString ''actor/action@v1'')],
                  DMap [(''uses'', DString ''actor/broken@v2'')],
                  DMap [(''uses'', DString ''docker://alpine'')]])]),
          (''notes'', DString ''none'')])]"

definition exampleLock :: "(string \<times> dyn) list" where
  "exampleLock =
     [(''packages'', DMap
         [('''', DMap [(''version'', DString ''0.0.1'')]),
          (''node_modules/left-pad'', DMap [(''version'', DString ''1.3.0'')]),
          (''node_modules/other'', DMap [(''version'', DString ''2.0.0'')])])]"

definition exampleFile :: "string \<Rightarrow> string \<Rightarrow> string + string \<Rightarrow> RepositoryContent" where
  "exampleFile name path content =
     \<lparr>GetType = ''file'', GetName = name, GetPath = path, GetContent = content\<rparr>"

definition exampleEnv :: env where
  "exampleEnv =
     \<lparr>ListByOrg = (\<lambda>org page.
        if page = 0 then Inr ([''r1'', ''r2''], 2)
        else if page = 2 then Inr ([''r3''], 0)
        else Inl ''no such page''),
      GetContents = (\<lambda>owner repo path.
        if path = ''.github/workflows'' then
          (if repo = ''r1'' then
             DirectoryContent
               [exampleFile ''ci.yml'' ''.github/workflows/ci.yml'' (Inl ''''),
                exampleFile ''README.md'' ''.github/workflows/README.md'' (Inl '''')]
           else if repo = ''r2'' then Failed (ErrorResponse 404 ''404 Not Found'')
           else Failed (OtherError ''request timed out''))
        else if path = ''.github/workflows/ci.yml'' then
          FileContent (exampleFile ''ci.yml'' ''.github/workflows/ci.yml'' (Inr ''workflow''))
        else if repo = ''action'' \<and> path = ''package-lock.json'' then
          FileContent (exampleFile ''package-lock.json'' ''package-lock.json'' (Inr ''lock''))
        else if repo = ''broken'' \<and> path = ''package-lock.json'' then
          FileContent (exampleFile ''package-lock.json'' ''package-lock.json'' (Inr ''<html>''))
        else if repo = ''checkout'' \<and> path = ''package.json'' then
          FileContent (exampleFile ''package.json'' ''package.json'' (Inr ''{}''))
        else Failed (ErrorResponse 404 ''404 Not Found'')),
      yamlUnmarshal = (\<lambda>s. if s = ''workflow'' then Inr exampleWorkflow else Inl ''yaml: error''),
      jsonUnmarshal =
        (\<lambda>s. if s = ''lock'' then Inr exampleLock else Inl ''invalid character''),
      infectedPackages = [''lodash@4.17.20'', ''left-pad@1.3.0''],
      Getenv = (\<lambda>key.
        if key = ''GITHUB_TOKEN'' then ''token''
        else if key = ''GITHUB_ORG'' then ''org'' else '''')\<rparr>"

text \<open>The mapping after the scan of the example, and after its analysis.\<close>

definition exampleScanned :: usage where
  "exampleScanned =
     [(''actions/checkout@v4'', freshInfo\<lparr>Repos := [''r1'']\<rparr>),
      (''actor/action@v1'', freshInfo\<lparr>Repos := [''r1'']\<rparr>),
      (''actor/broken@v2'', freshInfo\<lparr>Repos := [''r1'']\<rparr>),
      (''docker://alpine'', freshInfo\<lparr>Repos := [''r1'']\<rparr>)]"

definition exampleAnalyzed :: usage where
  "exampleAnalyzed =
     [(''actions/checkout@v4'', freshInfo\<lparr>Repos := [''r1''], UsesNpm := True, Analyzed := True\<rparr>),
      (''actor/action@v1'',
       freshInfo\<lparr>Repos := [''r1''], UsesNpm := True, IsInfected := True,
                 InfectedPackages := [''left-pad@1.3.0''], Analyzed := True\<rparr>),
      (''actor/broken@v2'', freshInfo\<lparr>Repos := [''r1''], UsesNpm := True, Analyzed := True\<rparr>),
      (''docker://alpine'', freshInfo\<lparr>Repos := [''r1'']\<rparr>)]"

text \<open>
  An API that answers every request for contents with a response of status 500, which
  the client library returns as a \<^verbatim>\<open>*github.ErrorResponse\<close>.
\<close>

definition serverErrorEnv :: env where
  "serverErrorEnv =
     exampleEnv\<lparr>GetContents :=
       (\<lambda>owner repo path. Failed (ErrorResponse 500 ''500 Internal Server Error''))\<rparr>"

section \<open>Splitting at a separator\<close>

lemma HasPrefix_iff: "HasPrefix s p \<longleftrightarrow> (\<exists>r. s = p @ r)"
proof
  assume "HasPrefix s p"
  then have "s = p @ drop (length p) s"
    by (metis HasPrefix_def append_take_drop_id)
  then show "\<exists>r. s = p @ r" ..
next
  assume "\<exists>r. s = p @ r"
  then show "HasPrefix s p" by (auto simp: HasPrefix_def)
qed

lemma HasPrefix_Nil: "HasPrefix s []"
  by (simp add: HasPrefix_def)

lemma HasPrefix_Cons_Cons: "HasPrefix (c # cs) (d # ds) \<longleftrightarrow> c = d \<and> HasPrefix cs ds"
  by (auto simp: HasPrefix_def)

lemma HasPrefix_Contains: "HasPrefix s p \<Longrightarrow> Contains s p"
  by (cases s) (auto simp: HasPrefix_def)

lemma Contains_Cons: "Contains cs p \<Longrightarrow> Contains (c # cs) p"
  by simp

lemma Contains_drop: "Contains (drop n s) p \<Longrightarrow> Contains s p"
proof (induction s arbitrary: n)
  case Nil
  then show ?case by simp
next
  case (Cons c cs)
  show ?case
  proof (cases n)
    case 0
    with Cons.prems show ?thesis by simp
  next
    case (Suc m)
    with Cons.prems have "Contains (drop m cs) p" by simp
    then have "Contains cs p" by (rule Cons.IH)
    then show ?thesis by simp
  qed
qed

lemma SplitFrom_not_Nil: "SplitFrom sep cur s \<noteq> []"
  by (induction sep cur s rule: SplitFrom.induct) auto

lemma Split_not_Nil: "Split s sep \<noteq> []"
  by (simp add: Split_def SplitFrom_not_Nil)

lemma length_SplitFrom:
  "sep \<noteq> [] \<Longrightarrow> 1 < length (SplitFrom sep cur s) \<longleftrightarrow> Contains s sep"
proof (induction sep cur s rule: SplitFrom.induct)
  case (1 sep cur)
  then show ?case by simp
next
  case (2 sep cur c cs)
  show ?case
  proof (cases "HasPrefix (c # cs) sep")
    case True
    have "0 < length (SplitFrom sep [] (drop (length sep - 1) cs))"
      using SplitFrom_not_Nil by blast
    with True show ?thesis by simp
  next
    case False
    with 2 show ?thesis by simp
  qed
qed

lemma afterLastOcc_None_iff: "sep \<noteq> [] \<Longrightarrow> afterLastOcc sep s = None \<longleftrightarrow> \<not> Contains s sep"
  by (induction s) (auto split: option.splits)

text \<open>
  Two occurrences of \<^verbatim>\<open>/node_modules/\<close> overlap only in the \<^verbatim>\<open>/\<close> they share. Where the
  string starts with the separator and no two occurrences overlap, the last occurrence
  lies in what follows the first one, if there is another one at all.
\<close>

lemma afterLastOcc_separator_first:
  assumes "\<not> Contains (''/node_modules/'' @ r) ''/node_modules/node_modules/''"
  shows "afterLastOcc ''/node_modules/'' (''/node_modules/'' @ r) =
           Some (case afterLastOcc ''/node_modules/'' r of None \<Rightarrow> r | Some x \<Rightarrow> x)"
proof -
  have "\<not> HasPrefix (CHR ''/'' # r) ''/node_modules/''"
  proof
    assume "HasPrefix (CHR ''/'' # r) ''/node_modules/''"
    then obtain t where "CHR ''/'' # r = ''/node_modules/'' @ t"
      unfolding HasPrefix_iff ..
    then have "''/node_modules/'' @ r = ''/node_modules/node_modules/'' @ t" by simp
    then have "HasPrefix (''/node_modules/'' @ r) ''/node_modules/node_modules/''"
      unfolding HasPrefix_iff ..
    with assms show False by (blast dest: HasPrefix_Contains)
  qed
  then show ?thesis
    by (simp add: HasPrefix_Cons_Cons HasPrefix_Nil split: option.splits)
qed

lemma last_SplitFrom_separator:
  assumes "sep = ''/node_modules/''"
    and "\<not> Contains s ''/node_modules/node_modules/''"
  shows "last (SplitFrom sep cur s) =
           (case afterLastOcc sep s of None \<Rightarrow> cur @ s | Some r \<Rightarrow> r)"
  using assms
proof (induction sep cur s rule: SplitFrom.induct)
  case (1 sep cur)
  then show ?case by simp
next
  case (2 sep cur c cs)
  show ?case
  proof (cases "HasPrefix (c # cs) sep")
    case True
    then obtain r where r: "c # cs = sep @ r"
      unfolding HasPrefix_iff ..
    then have d: "drop (length sep - 1) cs = r"
      using "2.prems"(1) by auto
    have n: "\<not> Contains r ''/node_modules/node_modules/''"
      using "2.prems"(2) Contains_drop [of "length sep" "c # cs"] r by auto
    have "last (SplitFrom sep cur (c # cs)) = last (SplitFrom sep [] r)"
      using True d by (simp add: SplitFrom_not_Nil)
    also have "\<dots> = (case afterLastOcc sep r of None \<Rightarrow> r | Some x \<Rightarrow> x)"
      using "2.IH"(1) [OF True "2.prems"(1)] n d by (simp split: option.splits)
    also have "Some \<dots> = afterLastOcc sep (c # cs)"
      using afterLastOcc_separator_first [of r] "2.prems" r by simp
    finally show ?thesis by (metis option.simps(5))
  next
    case False
    have n: "\<not> Contains cs ''/node_modules/node_modules/''"
      using "2.prems"(2) by simp
    from "2.IH"(2) [OF False "2.prems"(1) n] False show ?thesis
      by (simp split: option.splits)
  qed
qed

text \<open>
  Claim C7 says that, outside the scoped case, the extraction returns the substring
  after the last \<^verbatim>\<open>/node_modules/\<close> separator (\<open>specPackageName\<close>), which is what the code
  sets out to do ("for nested dependencies, take only the last part"). The code takes
  the last piece of \<^verbatim>\<open>strings.Split\<close>, which cuts at occurrences from left to right that
  do not overlap. In \<^verbatim>\<open>@scope/node_modules/node_modules/b\<close> the two occurrences of the
  separator share a \<^verbatim>\<open>/\<close>: the split cuts at the first one only, its last piece is
  \<^verbatim>\<open>node_modules/b\<close> and not \<^verbatim>\<open>b\<close>, and the infection check of a lock file with that
  path at version 1.0.0 does not find \<^verbatim>\<open>b@1.0.0\<close> in a registry that holds it.
\<close>

theorem extractPackageName_adjacent_separators:
  "extractPackageName ''node_modules/@scope/node_modules/node_modules/b'' = ''node_modules/b'' \<and>
   specPackageName ''node_modules/@scope/node_modules/node_modules/b'' = ''b'' \<and>
   extractPackageName ''node_modules/a/node_modules/node_modules/b'' = ''node_modules/b'' \<and>
   specPackageName ''node_modules/a/node_modules/node_modules/b'' = ''b'' \<and>
   fst (checkPackagesForInfection [''b@1.0.0'']
          [(''packages'',
            DMap [(''node_modules/@scope/node_modules/node_modules/b'',
                   DMap [(''version'', DString ''1.0.0'')])])]
          freshInfo) = freshInfo"
  by code_simp

text \<open>
  On every other path the code returns what the specification says: where the
  remainder, after one leading \<^verbatim>\<open>node_modules/\<close> is stripped, does not contain
  \<^verbatim>\<open>/node_modules/node_modules/\<close> (no two separators overlap), the extraction returns the
  remainder verbatim when it starts with \<^verbatim>\<open>@\<close>, contains \<^verbatim>\<open>/\<close> and contains no
  \<^verbatim>\<open>/node_modules/\<close>, and otherwise the substring after the last \<^verbatim>\<open>/node_modules/\<close>, which
  is the whole remainder when there is no separator. The three examples of the
  specification are among these paths.
\<close>

theorem extractPackageName_without_overlap:
  "(\<not> Contains (TrimPrefix pkgPath ''node_modules/'') ''/node_modules/node_modules/'' \<longrightarrow>
      extractPackageName pkgPath = specPackageName pkgPath) \<and>
   extractPackageName ''node_modules/@scope/pkg'' = ''@scope/pkg'' \<and>
   extractPackageName ''node_modules/a/node_modules/b'' = ''b'' \<and>
   extractPackageName ''node_modules/simple'' = ''simple''"
proof (intro conjI impI)
  define rest where "rest = TrimPrefix pkgPath ''node_modules/''"
  assume "\<not> Contains (TrimPrefix pkgPath ''node_modules/'') ''/node_modules/node_modules/''"
  then have n: "\<not> Contains rest ''/node_modules/node_modules/''"
    by (simp add: rest_def)
  have l: "last (Split rest ''/node_modules/'') =
      (case afterLastOcc ''/node_modules/'' rest of None \<Rightarrow> rest | Some r \<Rightarrow> r)"
    using last_SplitFrom_separator [OF refl n, of "[]"]
    by (simp add: Split_def split: option.splits)
  have c: "1 < length (Split rest ''/node_modules/'') \<longleftrightarrow> Contains rest ''/node_modules/''"
    unfolding Split_def by (rule length_SplitFrom) simp
  have i: "Split rest ''/node_modules/'' ! (length (Split rest ''/node_modules/'') - 1) =
      last (Split rest ''/node_modules/'')"
    by (simp add: last_conv_nth Split_not_Nil)
  have o: "\<not> Contains rest ''/node_modules/'' \<Longrightarrow>
      (case afterLastOcc ''/node_modules/'' rest of None \<Rightarrow> rest | Some r \<Rightarrow> r) = rest"
    using afterLastOcc_None_iff [of "''/node_modules/''" rest] by simp
  show "extractPackageName pkgPath = specPackageName pkgPath"
    unfolding extractPackageName_def specPackageName_def rest_def [symmetric] Let_def
    using l c i o by auto
next
  show "extractPackageName ''node_modules/@scope/pkg'' = ''@scope/pkg''" by code_simp
  show "extractPackageName ''node_modules/a/node_modules/b'' = ''b''" by code_simp
  show "extractPackageName ''node_modules/simple'' = ''simple''" by code_simp
qed

section \<open>The registry membership check\<close>

lemma isInfectedPackage_iff: "isInfectedPackage registry s \<longleftrightarrow> s \<in> set registry"
  by (induction registry) auto

text \<open>
  Claim C6. The registry check is exact equality of the full \<^verbatim>\<open>name@version\<close> string:
  for every candidate string \<open>s\<close> and every registry, \<^verbatim>\<open>isInfectedPackage\<close> answers true
  exactly when \<open>s\<close> is an element of the registry. In particular \<^verbatim>\<open>lodash@4.17.20\<close>
  matches a registry that holds only \<^verbatim>\<open>lodash@4.17.20\<close>, and \<^verbatim>\<open>lodash@4.17.21\<close> does not.
\<close>

theorem isInfectedPackage_exact_match:
  "(isInfectedPackage registry s \<longleftrightarrow> s \<in> set registry) \<and>
   isInfectedPackage [''lodash@4.17.20''] ''lodash@4.17.20'' \<and>
   \<not> isInfectedPackage [''lodash@4.17.20''] ''lodash@4.17.21''"
  by (simp add: isInfectedPackage_iff)

section \<open>The infection check of a lock file\<close>

text \<open>
  The loop appends to its accumulator, in the order of the visit, the \<^verbatim>\<open>name@version\<close>
  strings that are in the registry.
\<close>

lemma collectInfected_acc:
  "collectInfected registry packages acc =
     acc @ filter (\<lambda>p. p \<in> set registry) (packageVersions packages)"
proof (induction packages arbitrary: acc)
  case Nil
  show ?case by (simp add: packageVersions_def)
next
  case (Cons p packages)
  obtain pkgPath pkgInfo where p: "p = (pkgPath, pkgInfo)" by (cases p)
  have tl: "packageVersions ((pkgPath, pkgInfo) # packages) =
     (if pkgPath = '''' then []
      else (case assertMap pkgInfo of None \<Rightarrow> []
            | Some pkgData \<Rightarrow> (case assertString (lookup pkgData ''version'') of None \<Rightarrow> []
                 | Some version \<Rightarrow> [extractPackageName pkgPath @ ''@'' @ version])))
     @ packageVersions packages"
    by (simp add: packageVersions_def split: option.splits)
  show ?case
    unfolding p tl
    by (simp add: Cons.IH isInfectedPackage_iff Let_def split: option.splits)
qed

text \<open>
  Claim C2. For a parsed lock file with a top-level \<^verbatim>\<open>packages\<close> mapping, the infection
  check visits every path other than the empty root path, skips the entries without a
  string \<^verbatim>\<open>version\<close>, forms \<^verbatim>\<open>name@version\<close> from the extracted package name, and
  accumulates exactly those strings that are in the registry (\<open>packageVersions\<close> lists
  the strings formed): the entry is left as it was when there is none, and is marked
  infected with the list of them otherwise. In particular, with \<^verbatim>\<open>left-pad@1.3.0\<close> in
  the registry, the lock file whose \<^verbatim>\<open>packages\<close> holds \<^verbatim>\<open>node_modules/left-pad\<close> at
  version \<^verbatim>\<open>1.3.0\<close> marks the entry infected with the list \<^verbatim>\<open>[left-pad@1.3.0]\<close>.
\<close>

theorem checkPackagesForInfection_matches:
  "(assertMap (lookup lockJSON ''packages'') = Some packages \<longrightarrow>
      fst (checkPackagesForInfection registry lockJSON info) =
        (let found = filter (\<lambda>p. p \<in> set registry) (packageVersions packages)
         in if found = [] then info
            else info\<lparr>IsInfected := True, InfectedPackages := found\<rparr>)) \<and>
   (''left-pad@1.3.0'' \<in> set registry \<longrightarrow>
      fst (checkPackagesForInfection registry
             [(''packages'',
               DMap [(''node_modules/left-pad'', DMap [(''version'', DString ''1.3.0'')])])]
             info) =
        info\<lparr>IsInfected := True, InfectedPackages := [''left-pad@1.3.0'']\<rparr>)"
proof (intro conjI impI)
  assume "assertMap (lookup lockJSON ''packages'') = Some packages"
  then show "fst (checkPackagesForInfection registry lockJSON info) =
        (let found = filter (\<lambda>p. p \<in> set registry) (packageVersions packages)
         in if found = [] then info
            else info\<lparr>IsInfected := True, InfectedPackages := found\<rparr>)"
    by (simp add: checkPackagesForInfection_def collectInfected_acc Let_def)
next
  assume "''left-pad@1.3.0'' \<in> set registry"
  moreover have "extractPackageName ''node_modules/left-pad'' = ''left-pad''"
    by code_simp
  ultimately show "fst (checkPackagesForInfection registry
             [(''packages'',
               DMap [(''node_modules/left-pad'', DMap [(''version'', DString ''1.3.0'')])])]
             info) =
        info\<lparr>IsInfected := True, InfectedPackages := [''left-pad@1.3.0'']\<rparr>"
    by (simp add: checkPackagesForInfection_def lookup_def isInfectedPackage_iff Let_def)
qed

theorem checkPackagesForInfection_matches_witness:
  "assertMap (lookup exampleLock ''packages'') \<noteq> None \<and>
   ''left-pad@1.3.0'' \<in> set (infectedPackages exampleEnv) \<and>
   fst (checkPackagesForInfection (infectedPackages exampleEnv) exampleLock freshInfo) =
     freshInfo\<lparr>IsInfected := True, InfectedPackages := [''left-pad@1.3.0'']\<rparr> \<and>
   fst (checkPackagesForInfection (infectedPackages exampleEnv)
             [(''packages'',
               DMap [(''node_modules/left-pad'', DMap [(''version'', DString ''1.3.0'')])])]
             freshInfo) =
        freshInfo\<lparr>IsInfected := True, InfectedPackages := [''left-pad@1.3.0'']\<rparr>"
proof -
  have n1: "extractPackageName ''node_modules/left-pad'' = ''left-pad''"
    by code_simp
  have n2: "extractPackageName ''node_modules/other'' = ''other''"
    by code_simp
  have pk: "assertMap (lookup exampleLock ''packages'') =
      Some [('''', DMap [(''version'', DString ''0.0.1'')]),
          (''node_modules/left-pad'', DMap [(''version'', DString ''1.3.0'')]),
          (''node_modules/other'', DMap [(''version'', DString ''2.0.0'')])]"
    by (simp add: exampleLock_def lookup_def)
  have reg: "''left-pad@1.3.0'' \<in> set (infectedPackages exampleEnv)"
    by (simp add: exampleEnv_def)
  show ?thesis
    using checkPackagesForInfection_matches
      [of exampleLock _ "infectedPackages exampleEnv" freshInfo] pk reg
    by (simp add: packageVersions_def lookup_def n1 n2 exampleEnv_def)
qed

section \<open>The usage mapping under \<^verbatim>\<open>addActionUsage\<close>\<close>

lemma map_of_addActionUsage:
  "map_of (addActionUsage actionUse repoName usesRepos) k =
     (if k = actionUse
      then Some (case map_of usesRepos actionUse of
                   None \<Rightarrow> freshInfo\<lparr>Repos := [repoName]\<rparr>
                 | Some info \<Rightarrow> info\<lparr>Repos := List.insert repoName (Repos info)\<rparr>)
      else map_of usesRepos k)"
  by (auto simp: addActionUsage_def Let_def map_of_map_entry update_conv' freshInfo_def
      split: option.splits)

lemma distinct_addActionUsage:
  "distinct (map fst usesRepos) \<Longrightarrow>
   distinct (map fst (addActionUsage actionUse repoName usesRepos))"
  by (simp add: addActionUsage_def Let_def distinct_map_entry distinct_update)

lemma distinct_addAll:
  "distinct (map fst usesRepos) \<Longrightarrow> distinct (map fst (addAll calls usesRepos))"
  by (induction calls arbitrary: usesRepos)
     (auto simp: addAll_def distinct_addActionUsage)

lemma addAll_Nil: "addAll [] usesRepos = usesRepos"
  by (simp add: addAll_def)

lemma addAll_Cons:
  "addAll ((actionUse, repoName) # calls) usesRepos =
     addAll calls (addActionUsage actionUse repoName usesRepos)"
  by (simp add: addAll_def)

lemma addAll_append: "addAll (xs @ ys) usesRepos = addAll ys (addAll xs usesRepos)"
  by (simp add: addAll_def)

text \<open>With one repository name, the calls give every reference an entry that holds the name.\<close>

lemma map_of_addAll_repo:
  "map_of (addAll (map (\<lambda>u. (u, repoName)) uses) usesRepos) k =
     (if k \<in> set uses
      then Some (case map_of usesRepos k of
                   None \<Rightarrow> freshInfo\<lparr>Repos := [repoName]\<rparr>
                 | Some info \<Rightarrow> info\<lparr>Repos := List.insert repoName (Repos info)\<rparr>)
      else map_of usesRepos k)"
proof (induction uses arbitrary: usesRepos)
  case Nil
  show ?case by (simp add: addAll_Nil)
next
  case (Cons u uses)
  show ?case
    by (simp add: addAll_Cons Cons.IH map_of_addActionUsage freshInfo_def
        split: option.splits)
qed

section \<open>The workflow scanner adds the \<^verbatim>\<open>uses\<close> strings\<close>

lemma processSteps_addAll:
  "processSteps steps repoName usesRepos =
     addAll (map (\<lambda>u. (u, repoName)) (concat (map stepUses steps))) usesRepos"
  by (induction steps arbitrary: usesRepos)
     (auto simp: addAll_Nil addAll_Cons stepUses_def split: option.splits)

lemma processJobSteps_addAll:
  "processJobSteps job repoName usesRepos =
     addAll (map (\<lambda>u. (u, repoName)) (jobUses job)) usesRepos"
  by (simp add: processJobSteps_def jobUses_def processSteps_addAll addAll_Nil
      split: option.splits)

lemma processJobs_addAll:
  "processJobs jobs repoName usesRepos =
     addAll (map (\<lambda>u. (u, repoName)) (concat (map (\<lambda>(jobId, job). jobUses job) jobs)))
       usesRepos"
  by (induction jobs arbitrary: usesRepos)
     (auto simp: addAll_Nil addAll_append processJobSteps_addAll)

lemma extractActionsFromWorkflow_addAll:
  "unmarshal workflowContent = Inr workflow \<Longrightarrow>
   fst (extractActionsFromWorkflow unmarshal workflowContent repoName usesRepos) =
     addAll (map (\<lambda>u. (u, repoName)) (workflowUses workflow)) usesRepos"
  by (simp add: extractActionsFromWorkflow_def workflowUses_def processJobs_addAll addAll_Nil
      split: option.splits)

lemma extractActionsFromWorkflow_calls:
  "\<exists>calls. fst (extractActionsFromWorkflow unmarshal workflowContent repoName usesRepos) =
     addAll calls usesRepos"
proof (cases "unmarshal workflowContent")
  case (Inl err)
  then have "fst (extractActionsFromWorkflow unmarshal workflowContent repoName usesRepos) =
     addAll [] usesRepos"
    by (simp add: extractActionsFromWorkflow_def addAll_Nil)
  then show ?thesis by blast
next
  case (Inr workflow)
  then show ?thesis
    using extractActionsFromWorkflow_addAll
      [of unmarshal workflowContent workflow repoName usesRepos]
    by blast
qed

text \<open>The strings of \<open>workflowUses\<close>, spelled out.\<close>

lemma workflowUses_iff:
  "u \<in> set (workflowUses workflow) \<longleftrightarrow>
     (\<exists>jobs jobId job jobMap steps step stepMap.
        assertMap (lookup workflow ''jobs'') = Some jobs \<and> (jobId, job) \<in> set jobs \<and>
        assertMap job = Some jobMap \<and> assertSlice (lookup jobMap ''steps'') = Some steps \<and>
        step \<in> set steps \<and> assertMap step = Some stepMap \<and>
        assertString (lookup stepMap ''uses'') = Some u)"
proof -
  have step: "\<And>step. u \<in> set (stepUses step) \<longleftrightarrow>
      (\<exists>stepMap. assertMap step = Some stepMap \<and>
         assertString (lookup stepMap ''uses'') = Some u)"
  proof -
    fix step
    show "u \<in> set (stepUses step) \<longleftrightarrow>
      (\<exists>stepMap. assertMap step = Some stepMap \<and>
         assertString (lookup stepMap ''uses'') = Some u)"
    proof (cases "assertMap step")
      case None
      then show ?thesis by (simp add: stepUses_def)
    next
      case (Some stepMap)
      then show ?thesis
        by (cases "assertString (lookup stepMap ''uses'')") (auto simp: stepUses_def)
    qed
  qed
  have job: "\<And>job. u \<in> set (jobUses job) \<longleftrightarrow>
      (\<exists>jobMap steps step. assertMap job = Some jobMap \<and>
         assertSlice (lookup jobMap ''steps'') = Some steps \<and> step \<in> set steps \<and>
         u \<in> set (stepUses step))"
  proof -
    fix job
    show "u \<in> set (jobUses job) \<longleftrightarrow>
      (\<exists>jobMap steps step. assertMap job = Some jobMap \<and>
         assertSlice (lookup jobMap ''steps'') = Some steps \<and> step \<in> set steps \<and>
         u \<in> set (stepUses step))"
    proof (cases "assertMap job")
      case None
      then show ?thesis by (simp add: jobUses_def)
    next
      case (Some jobMap)
      then show ?thesis
        by (cases "assertSlice (lookup jobMap ''steps'')") (auto simp: jobUses_def)
    qed
  qed
  have "u \<in> set (workflowUses workflow) \<longleftrightarrow>
      (\<exists>jobs jobId job. assertMap (lookup workflow ''jobs'') = Some jobs \<and>
         (jobId, job) \<in> set jobs \<and> u \<in> set (jobUses job))"
    by (cases "assertMap (lookup workflow ''jobs'')") (auto simp: workflowUses_def)
  then show ?thesis
    unfolding job step by blast
qed

text \<open>
  Claim C1 says that the \<^verbatim>\<open>uses\<close> string of every step that has a string \<^verbatim>\<open>uses\<close> field
  becomes a key of the usage mapping. The code takes a step only when its type
  assertion to \<^verbatim>\<open>map[string]interface{}\<close> succeeds, and skips it by \<^verbatim>\<open>continue\<close> otherwise.
  The step \<^verbatim>\<open>{uses: a/b@v1, 2: x}\<close> has a string \<^verbatim>\<open>uses\<close> field and a key that is not a
  string: in a document that parses, under a job of the \<^verbatim>\<open>jobs\<close> mapping, it is skipped
  and \<^verbatim>\<open>a/b@v1\<close> is no key of the result.
\<close>

theorem extractActionsFromWorkflow_mixed_keys_counterexample:
  "assertMap (lookup mixedKeysWorkflow ''jobs'') =
     Some [(''build'', DMap [(''steps'', DSlice [mixedKeysStep])])] \<and>
   assertString (mappingField mixedKeysStep ''uses'') = Some ''a/b@v1'' \<and>
   extractActionsFromWorkflow (\<lambda>content. Inr mixedKeysWorkflow) ''content'' ''r1'' [] = ([], []) \<and>
   map_of (fst (extractActionsFromWorkflow (\<lambda>content. Inr mixedKeysWorkflow) ''content''
                  ''r1'' [])) ''a/b@v1'' = None"
  by code_simp

text \<open>
  Claim C1, amended. For a workflow document that parses as YAML,
  \<^verbatim>\<open>extractActionsFromWorkflow\<close> gives every \<^verbatim>\<open>uses\<close> string of the document an entry under
  that exact string as its key, and the repository set of the entry is the one it had
  before (empty for a new entry) with the repository name added. The \<^verbatim>\<open>uses\<close> strings are
  the string \<^verbatim>\<open>uses\<close> fields of the steps in the \<^verbatim>\<open>steps\<close> sequence of the jobs of the
  \<^verbatim>\<open>jobs\<close> mapping, where the \<^verbatim>\<open>jobs\<close> mapping, the job and the step are mappings whose
  keys are all strings (\<open>workflowUses\<close>, spelled out in \<open>workflowUses_iff\<close>). Every other
  key of the usage mapping is left as it was: a document without a \<^verbatim>\<open>jobs\<close> mapping, a
  job without a \<^verbatim>\<open>steps\<close> sequence, a step without a string \<^verbatim>\<open>uses\<close> and a mapping with a
  key that is not a string contribute nothing.
\<close>

theorem extractActionsFromWorkflow_collects:
  assumes "unmarshal workflowContent = Inr workflow"
  shows "(k \<in> set (workflowUses workflow) \<longrightarrow>
            (\<exists>info. map_of (fst (extractActionsFromWorkflow unmarshal workflowContent
                                   repoName usesRepos)) k = Some info \<and>
                    set (Repos info) =
                      insert repoName
                        (case map_of usesRepos k of None \<Rightarrow> {} | Some old \<Rightarrow> set (Repos old)))) \<and>
         (k \<notin> set (workflowUses workflow) \<longrightarrow>
            map_of (fst (extractActionsFromWorkflow unmarshal workflowContent
                          repoName usesRepos)) k = map_of usesRepos k)"
proof -
  have "fst (extractActionsFromWorkflow unmarshal workflowContent repoName usesRepos) =
     addAll (map (\<lambda>u. (u, repoName)) (workflowUses workflow)) usesRepos"
    using assms by (rule extractActionsFromWorkflow_addAll)
  then show ?thesis
    by (simp add: map_of_addAll_repo freshInfo_def split: option.splits)
qed

theorem extractActionsFromWorkflow_collects_witness:
  "yamlUnmarshal exampleEnv ''workflow'' = Inr exampleWorkflow \<and>
   ''actor/action@v1'' \<in> set (workflowUses exampleWorkflow) \<and>
   ''actor/other@v1'' \<notin> set (workflowUses exampleWorkflow) \<and>
   (\<exists>info. map_of (fst (extractActionsFromWorkflow (yamlUnmarshal exampleEnv) ''workflow''
                          ''r1'' [])) ''actor/action@v1'' = Some info \<and>
           set (Repos info) = {''r1''}) \<and>
   map_of (fst (extractActionsFromWorkflow (yamlUnmarshal exampleEnv) ''workflow''
                  ''r1'' [])) ''actor/other@v1'' = None"
proof -
  have y: "yamlUnmarshal exampleEnv ''workflow'' = Inr exampleWorkflow"
    by (simp add: exampleEnv_def)
  have u: "workflowUses exampleWorkflow =
     [''actions/checkout@v4'', ''actor/action@v1'', ''actor/broken@v2'', ''docker://alpine'']"
    by code_simp
  show ?thesis
    using extractActionsFromWorkflow_collects
        [of "yamlUnmarshal exampleEnv" "''workflow''" exampleWorkflow "''actor/action@v1''"
            "''r1''" "[]"]
      extractActionsFromWorkflow_collects
        [of "yamlUnmarshal exampleEnv" "''workflow''" exampleWorkflow "''actor/other@v1''"
            "''r1''" "[]"]
    by (simp add: y u)
qed

section \<open>Entries of the usage mapping during the scan\<close>

lemma set_map_entry_cases:
  "(k, v) \<in> set (AList.map_entry a f al) \<Longrightarrow>
     (k, v) \<in> set al \<or> (k = a \<and> (\<exists>w. (a, w) \<in> set al \<and> v = f w))"
  by (induction al) (auto split: if_splits)

lemma map_entry_update_new:
  "map_of al a = None \<Longrightarrow> AList.map_entry a f (AList.update a w al) = al @ [(a, f w)]"
  by (induction al) (auto split: if_splits)

lemma addAll_same: "\<exists>calls. usesRepos = addAll calls usesRepos"
  by (rule exI [of _ "[]"]) (simp add: addAll_def)

lemma set_addActionUsage_cases:
  assumes "(k, info) \<in> set (addActionUsage actionUse repoName usesRepos)"
  shows "(k, info) \<in> set usesRepos \<or>
         (k = actionUse \<and>
          (info = freshInfo\<lparr>Repos := [repoName]\<rparr> \<or>
           (\<exists>old. (actionUse, old) \<in> set usesRepos \<and>
                  info = old\<lparr>Repos := List.insert repoName (Repos old)\<rparr>)))"
proof (cases "map_of usesRepos actionUse = None")
  case True
  have "addActionUsage actionUse repoName usesRepos =
      usesRepos @ [(actionUse, freshInfo\<lparr>Repos := [repoName]\<rparr>)]"
    using True by (simp add: addActionUsage_def map_entry_update_new freshInfo_def)
  with assms show ?thesis by auto
next
  case False
  with assms have
    "(k, info) \<in> set (AList.map_entry actionUse
        (\<lambda>info. info\<lparr>Repos := List.insert repoName (Repos info)\<rparr>) usesRepos)"
    by (simp add: addActionUsage_def)
  then show ?thesis
    by (auto dest!: set_map_entry_cases)
qed

text \<open>
  After any sequence of calls an entry is an entry of before with possibly more
  repositories, or an untouched entry with at least one repository.
\<close>

lemma addAll_entries:
  "(k, info) \<in> set (addAll calls usesRepos) \<Longrightarrow>
     (\<exists>old. (k, old) \<in> set usesRepos \<and> info = old\<lparr>Repos := Repos info\<rparr> \<and>
            set (Repos old) \<subseteq> set (Repos info)) \<or>
     (untouched info \<and> Repos info \<noteq> [])"
proof (induction calls arbitrary: usesRepos)
  case Nil
  then show ?case by (auto simp: addAll_Nil)
next
  case (Cons c calls)
  obtain actionUse repoName where c: "c = (actionUse, repoName)" by (cases c)
  from Cons.prems have "(k, info) \<in> set (addAll calls (addActionUsage actionUse repoName usesRepos))"
    by (simp add: c addAll_Cons)
  from Cons.IH [OF this] show ?case
  proof
    assume "\<exists>old. (k, old) \<in> set (addActionUsage actionUse repoName usesRepos) \<and>
        info = old\<lparr>Repos := Repos info\<rparr> \<and> set (Repos old) \<subseteq> set (Repos info)"
    then obtain mid where mid: "(k, mid) \<in> set (addActionUsage actionUse repoName usesRepos)"
      "info = mid\<lparr>Repos := Repos info\<rparr>" "set (Repos mid) \<subseteq> set (Repos info)"
      by blast
    from set_addActionUsage_cases [OF mid(1)] show ?thesis
    proof (elim disjE conjE exE)
      assume "(k, mid) \<in> set usesRepos"
      with mid show ?thesis by blast
    next
      assume "mid = freshInfo\<lparr>Repos := [repoName]\<rparr>"
      with mid have "untouched info \<and> Repos info \<noteq> []"
        by (cases info) (auto simp: untouched_def freshInfo_def)
      then show ?thesis ..
    next
      fix old assume old: "(actionUse, old) \<in> set usesRepos"
        "mid = old\<lparr>Repos := List.insert repoName (Repos old)\<rparr>" and k: "k = actionUse"
      have "info = old\<lparr>Repos := Repos info\<rparr>"
        using mid(2) old(2) by (cases info, cases old) auto
      moreover have "set (Repos old) \<subseteq> set (Repos info)"
        using mid(3) old(2) by auto
      ultimately show ?thesis using old(1) k by blast
    qed
  next
    assume "untouched info \<and> Repos info \<noteq> []"
    then show ?thesis ..
  qed
qed

text \<open>No call deletes an entry or removes a repository from one.\<close>

lemma addAll_keeps:
  "map_of usesRepos k = Some old \<Longrightarrow>
   \<exists>info. map_of (addAll calls usesRepos) k = Some info \<and> info = old\<lparr>Repos := Repos info\<rparr> \<and>
          set (Repos old) \<subseteq> set (Repos info)"
proof (induction calls arbitrary: usesRepos old)
  case Nil
  then show ?case by (simp add: addAll_Nil)
next
  case (Cons c calls)
  obtain actionUse repoName where c: "c = (actionUse, repoName)" by (cases c)
  define mid where "mid = (if k = actionUse then old\<lparr>Repos := List.insert repoName (Repos old)\<rparr> else old)"
  have "map_of (addActionUsage actionUse repoName usesRepos) k = Some mid"
    using Cons.prems by (auto simp: map_of_addActionUsage mid_def)
  from Cons.IH [OF this] obtain info where info:
    "map_of (addAll calls (addActionUsage actionUse repoName usesRepos)) k = Some info"
    "info = mid\<lparr>Repos := Repos info\<rparr>" "set (Repos mid) \<subseteq> set (Repos info)"
    by blast
  have "info = old\<lparr>Repos := Repos info\<rparr>"
    using info(2) by (cases info, cases old) (auto simp: mid_def split: if_splits)
  moreover have "set (Repos old) \<subseteq> set (Repos info)"
    using info(3) by (auto simp: mid_def split: if_splits)
  ultimately show ?case
    using info(1) by (simp add: c addAll_Cons)
qed

section \<open>The scan changes the mapping by calls of \<^verbatim>\<open>addActionUsage\<close> only\<close>

lemma processWorkflowFile_calls:
  "processWorkflowFile e org repoName content usesRepos = Inr (usesRepos1, out) \<Longrightarrow>
   \<exists>calls. usesRepos1 = addAll calls usesRepos"
proof -
  assume r: "processWorkflowFile e org repoName content usesRepos = Inr (usesRepos1, out)"
  note same = addAll_same [of usesRepos]
  show ?thesis
  proof (cases "GetContents e org repoName (GetPath content)")
    case (Failed err)
    with r same show ?thesis by (simp add: processWorkflowFile_def)
  next
    case (DirectoryContent listing)
    with r show ?thesis by (simp add: processWorkflowFile_def)
  next
    case (FileContent fileContent)
    show ?thesis
    proof (cases "GetContent fileContent")
      case (Inl err)
      with r FileContent same show ?thesis by (simp add: processWorkflowFile_def)
    next
      case (Inr decodedContent)
      with r FileContent have
        "usesRepos1 = fst (extractActionsFromWorkflow (yamlUnmarshal e) decodedContent repoName usesRepos)"
        by (simp add: processWorkflowFile_def)
      then show ?thesis
        using extractActionsFromWorkflow_calls by simp
    qed
  qed
qed

lemma processContents_calls:
  "processContents e org repoName listing usesRepos = Inr (usesRepos1, out) \<Longrightarrow>
   \<exists>calls. usesRepos1 = addAll calls usesRepos"
proof (induction listing arbitrary: usesRepos usesRepos1 out)
  case Nil
  then show ?case by (simp add: addAll_same)
next
  case (Cons content listing)
  show ?case
  proof (cases "isWorkflowFile content")
    case False
    with Cons show ?thesis by simp
  next
    case True
    with Cons.prems obtain mid out1 out2 where
      m: "processWorkflowFile e org repoName content usesRepos = Inr (mid, out1)"
      and n: "processContents e org repoName listing mid = Inr (usesRepos1, out2)"
      by (auto split: sum.splits)
    from processWorkflowFile_calls [OF m] obtain c1 where "mid = addAll c1 usesRepos" ..
    moreover from Cons.IH [OF n] obtain c2 where "usesRepos1 = addAll c2 mid" ..
    ultimately have "usesRepos1 = addAll (c1 @ c2) usesRepos"
      by (simp add: addAll_append)
    then show ?thesis ..
  qed
qed

lemma processRepository_calls:
  "processRepository e org repoName usesRepos = Inr (usesRepos1, out) \<Longrightarrow>
   \<exists>calls. usesRepos1 = addAll calls usesRepos"
proof -
  assume r: "processRepository e org repoName usesRepos = Inr (usesRepos1, out)"
  note same = addAll_same [of usesRepos]
  show ?thesis
  proof (cases "GetContents e org repoName ''.github/workflows''")
    case (Failed err)
    with r same show ?thesis by (cases err) (simp_all add: processRepository_def)
  next
    case (FileContent fileContent)
    with r same show ?thesis by (simp add: processRepository_def)
  next
    case (DirectoryContent listing)
    with r show ?thesis by (simp add: processRepository_def processContents_calls)
  qed
qed

lemma scanPage_calls:
  "scanPage e org repos repoCount usesRepos = Inr ((returned, repoCount1, usesRepos1), out) \<Longrightarrow>
   \<exists>calls. usesRepos1 = addAll calls usesRepos"
proof (induction repos arbitrary: repoCount usesRepos out)
  case Nil
  then show ?case by (simp add: addAll_same)
next
  case (Cons repoName repos)
  show ?case
  proof (cases "shouldStopScanning repoCount")
    case True
    with Cons.prems show ?thesis by (simp add: addAll_same)
  next
    case False
    with Cons.prems obtain mid out1 out2 where
      m: "processRepository e org repoName usesRepos = Inr (mid, out1)"
      and n: "scanPage e org repos (repoCount + 1) mid = Inr ((returned, repoCount1, usesRepos1), out2)"
      by (auto split: sum.splits)
    from processRepository_calls [OF m] obtain c1 where "mid = addAll c1 usesRepos" ..
    moreover from Cons.IH [OF n] obtain c2 where "usesRepos1 = addAll c2 mid" ..
    ultimately have "usesRepos1 = addAll (c1 @ c2) usesRepos"
      by (simp add: addAll_append)
    then show ?thesis ..
  qed
qed

lemma scanPages_calls:
  "scanPages fuel e org page repoCount usesRepos = Some (Inr (usesRepos1, out)) \<Longrightarrow>
   \<exists>calls. usesRepos1 = addAll calls usesRepos"
proof (induction fuel arbitrary: page repoCount usesRepos out)
  case 0
  then show ?case by simp
next
  case (Suc fuel)
  from Suc.prems obtain repos nextPage where l: "ListByOrg e org page = Inr (repos, nextPage)"
    by (auto split: sum.splits)
  with Suc.prems obtain returned repoCount1 mid out1 where
    m: "scanPage e org repos repoCount usesRepos = Inr ((returned, repoCount1, mid), out1)"
    by (auto split: sum.splits)
  from scanPage_calls [OF m] obtain c1 where c1: "mid = addAll c1 usesRepos" ..
  show ?case
  proof (cases "returned \<or> shouldStopScanning repoCount1 \<or> nextPage = 0")
    case True
    with Suc.prems l m have "usesRepos1 = mid" by auto
    with c1 show ?thesis by blast
  next
    case False
    with Suc.prems l m obtain out2 where
      n: "scanPages fuel e org nextPage repoCount1 mid = Some (Inr (usesRepos1, out2))"
      by (auto split: option.splits sum.splits)
    from Suc.IH [OF n] obtain c2 where "usesRepos1 = addAll c2 mid" ..
    with c1 have "usesRepos1 = addAll (c1 @ c2) usesRepos"
      by (simp add: addAll_append)
    then show ?thesis ..
  qed
qed

lemma scanRepositories_calls:
  "scanRepositories fuel e org = Some (Inr (usesRepos, out)) \<Longrightarrow>
   \<exists>calls. usesRepos = addAll calls []"
  unfolding scanRepositories_def by (rule scanPages_calls)

text \<open>After the scan every entry is untouched and has a repository; no key occurs twice.\<close>

lemma scanRepositories_entries:
  assumes "scanRepositories fuel e org = Some (Inr (usesRepos, out))"
    and "(k, info) \<in> set usesRepos"
  shows "untouched info \<and> Repos info \<noteq> []"
proof -
  from scanRepositories_calls [OF assms(1)] obtain calls where "usesRepos = addAll calls []" ..
  with assms(2) addAll_entries [of k info calls "[]"] show ?thesis by simp
qed

lemma scanRepositories_distinct:
  assumes "scanRepositories fuel e org = Some (Inr (usesRepos, out))"
  shows "distinct (map fst usesRepos)"
proof -
  from scanRepositories_calls [OF assms(1)] obtain calls where "usesRepos = addAll calls []" ..
  then show ?thesis using distinct_addAll [of "[]" calls] by simp
qed

section \<open>The analysis of one entry\<close>

lemma checkPackagesForInfection_fields:
  assumes "checkPackagesForInfection registry lockJSON info = (info1, out)"
  shows "Repos info1 = Repos info \<and> UsesNpm info1 = UsesNpm info \<and>
         Analyzed info1 = Analyzed info \<and>
         ((IsInfected info \<longleftrightarrow> InfectedPackages info \<noteq> []) \<longrightarrow>
          (IsInfected info1 \<longleftrightarrow> InfectedPackages info1 \<noteq> []))"
  using assms
  by (auto simp: checkPackagesForInfection_def Let_def split: option.splits if_splits)

lemma checkPackagesForInfection_no_packages:
  "assertMap (lookup lockJSON ''packages'') = None \<Longrightarrow>
   checkPackagesForInfection registry lockJSON info = (info, [])"
  by (simp add: checkPackagesForInfection_def)

lemma analyzePackageLockFile_fields:
  assumes "analyzePackageLockFile e owner repo info = Inr ((handled, info1), out)"
  shows "Repos info1 = Repos info \<and> Analyzed info1 = Analyzed info \<and>
         (UsesNpm info1 \<longleftrightarrow> UsesNpm info \<or> handled) \<and>
         ((IsInfected info \<longleftrightarrow> InfectedPackages info \<noteq> []) \<longrightarrow>
          (IsInfected info1 \<longleftrightarrow> InfectedPackages info1 \<noteq> []))"
proof (cases "GetContents e owner repo ''package-lock.json''")
  case (Failed err)
  with assms show ?thesis by (auto simp: analyzePackageLockFile_def)
next
  case (DirectoryContent listing)
  with assms show ?thesis by (simp add: analyzePackageLockFile_def)
next
  case (FileContent packageLock)
  show ?thesis
  proof (cases "GetContent packageLock")
    case (Inl err)
    with assms FileContent show ?thesis by (auto simp: analyzePackageLockFile_def)
  next
    case (Inr content)
    show ?thesis
    proof (cases "jsonUnmarshal e content")
      case (Inl err)
      with assms FileContent Inr show ?thesis by (auto simp: analyzePackageLockFile_def)
    next
      case lock: (Inr lockJSON)
      obtain info2 out2 where
        c: "checkPackagesForInfection (infectedPackages e) lockJSON (info\<lparr>UsesNpm := True\<rparr>) =
              (info2, out2)"
        by (cases "checkPackagesForInfection (infectedPackages e) lockJSON (info\<lparr>UsesNpm := True\<rparr>)")
      with assms FileContent Inr lock have "info1 = info2" "handled"
        by (auto simp: analyzePackageLockFile_def)
      with checkPackagesForInfection_fields [OF c] show ?thesis by simp
    qed
  qed
qed

lemma analyzePackageJsonFile_fields:
  assumes "analyzePackageJsonFile e owner repo info = (info1, out)"
  shows "info1 = info\<lparr>UsesNpm := UsesNpm info1\<rparr>"
  using assms by (cases "GetContents e owner repo ''package.json''")
    (auto simp: analyzePackageJsonFile_def)

lemma analyzeActionDependencies_fields:
  assumes "analyzeActionDependencies e owner repo info = Inr (info1, out)"
  shows "Repos info1 = Repos info \<and> Analyzed info1 = Analyzed info \<and>
         ((IsInfected info \<longleftrightarrow> InfectedPackages info \<noteq> []) \<longrightarrow>
          (IsInfected info1 \<longleftrightarrow> InfectedPackages info1 \<noteq> []))"
proof -
  from assms obtain handled mid out1 where
    l: "analyzePackageLockFile e owner repo info = Inr ((handled, mid), out1)"
    by (auto simp: analyzeActionDependencies_def split: sum.splits)
  note f = analyzePackageLockFile_fields [OF l]
  show ?thesis
  proof (cases handled)
    case True
    with assms l have "info1 = mid" by (simp add: analyzeActionDependencies_def)
    with f show ?thesis by simp
  next
    case False
    obtain info2 out2 where j: "analyzePackageJsonFile e owner repo mid = (info2, out2)"
      by (cases "analyzePackageJsonFile e owner repo mid")
    with assms l False have "info1 = info2" by (simp add: analyzeActionDependencies_def)
    with analyzePackageJsonFile_fields [OF j] have "info1 = mid\<lparr>UsesNpm := UsesNpm info1\<rparr>"
      by simp
    then have "Repos info1 = Repos mid" "Analyzed info1 = Analyzed mid"
      "IsInfected info1 = IsInfected mid" "InfectedPackages info1 = InfectedPackages mid"
      by (cases info1, cases mid, simp)+
    with f show ?thesis by simp
  qed
qed

section \<open>The analysis pass\<close>

lemma analyzeEntries_analysisOf:
  "analyzeEntries e usesRepos = Inr (usesRepos1, out) \<Longrightarrow>
   list_all2 (analysisOf e) usesRepos usesRepos1"
proof (induction usesRepos arbitrary: usesRepos1 out)
  case Nil
  then show ?case by simp
next
  case (Cons entry entries)
  obtain actionUse info where entry: "entry = (actionUse, info)" by (cases entry)
  obtain owner repo where p: "parseActionReference actionUse = (owner, repo)"
    by (cases "parseActionReference actionUse")
  show ?case
  proof (cases "Analyzed info \<or> \<not> wellFormedReference actionUse")
    case True
    with Cons.prems entry p obtain entries1 where
      r: "analyzeEntries e entries = Inr (entries1, out)"
      and u: "usesRepos1 = (actionUse, info) # entries1"
      by (auto simp: wellFormedReference_def split: sum.splits if_splits)
    from Cons.IH [OF r] True show ?thesis
      by (simp add: u entry analysisOf_def)
  next
    case False
    with Cons.prems entry p obtain info1 out1 entries1 out2 where
      a: "analyzeActionDependencies e owner repo info = Inr (info1, out1)"
      and r: "analyzeEntries e entries = Inr (entries1, out2)"
      and u: "usesRepos1 = (actionUse, info1\<lparr>Analyzed := True\<rparr>) # entries1"
      by (auto simp: wellFormedReference_def split: sum.splits if_splits)
    from Cons.IH [OF r] False a show ?thesis
      by (simp add: u entry analysisOf_def p)
  qed
qed

lemma analyzeActions_analysisOf:
  "analyzeActions e usesRepos = Inr (usesRepos1, out) \<Longrightarrow>
   list_all2 (analysisOf e) usesRepos usesRepos1"
  by (auto simp: analyzeActions_def split: sum.splits dest: analyzeEntries_analysisOf)

lemma analysisOf_key: "analysisOf e before after \<Longrightarrow> fst after = fst before"
  by (simp add: analysisOf_def)

lemma analysisOf_set:
  "list_all2 (analysisOf e) usesRepos usesRepos1 \<Longrightarrow> (k, info1) \<in> set usesRepos1 \<Longrightarrow>
   \<exists>info. (k, info) \<in> set usesRepos \<and> analysisOf e (k, info) (k, info1)"
proof (induction rule: list_all2_induct)
  case Nil
  then show ?case by simp
next
  case (Cons x xs y ys)
  show ?case
  proof (cases "(k, info1) = y")
    case True
    with Cons.hyps(1) have "x = (k, snd x)"
      by (cases x) (auto dest: analysisOf_key)
    with Cons.hyps(1) True show ?thesis
      by (metis list.set_intros(1))
  next
    case False
    with Cons.prems have "(k, info1) \<in> set ys" by simp
    from Cons.IH [OF this] show ?thesis by auto
  qed
qed

lemma analysisOf_map_of:
  "list_all2 (analysisOf e) usesRepos usesRepos1 \<Longrightarrow> map_of usesRepos k = Some info \<Longrightarrow>
   \<exists>info1. map_of usesRepos1 k = Some info1 \<and> analysisOf e (k, info) (k, info1)"
proof (induction rule: list_all2_induct)
  case Nil
  then show ?case by simp
next
  case (Cons x xs y ys)
  have key: "fst y = fst x"
    using Cons.hyps(1) by (rule analysisOf_key)
  show ?case
  proof (cases "fst x = k")
    case True
    with Cons.prems have "x = (k, info)" by (cases x) auto
    moreover from True key have "y = (k, snd y)" by (cases y) auto
    ultimately show ?thesis
      using Cons.hyps(1) by (metis map_of_Cons_code(2))
  next
    case False
    with Cons.prems have "map_of xs k = Some info" by (cases x) auto
    from Cons.IH [OF this] False key show ?thesis by (cases y) auto
  qed
qed

lemma analysisOf_fields:
  assumes "analysisOf e (k, info) (k1, info1)"
  shows "k1 = k \<and> Repos info1 = Repos info \<and>
         ((IsInfected info \<longleftrightarrow> InfectedPackages info \<noteq> []) \<longrightarrow>
          (IsInfected info1 \<longleftrightarrow> InfectedPackages info1 \<noteq> [])) \<and>
         (Analyzed info1 \<longleftrightarrow> Analyzed info \<or> wellFormedReference k)"
proof (cases "Analyzed info \<or> \<not> wellFormedReference k")
  case True
  with assms show ?thesis by (auto simp: analysisOf_def)
next
  case False
  with assms obtain mid out where
    a: "analyzeActionDependencies e (fst (parseActionReference k)) (snd (parseActionReference k)) info
          = Inr (mid, out)"
    and i: "info1 = mid\<lparr>Analyzed := True\<rparr>" and k: "k1 = k"
    by (auto simp: analysisOf_def split: sum.splits)
  from analyzeActionDependencies_fields [OF a] i k False show ?thesis by simp
qed

section \<open>The example run\<close>

lemma example_scan:
  "map_option (map_sum id fst) (scanRepositories 2 exampleEnv ''org'') = Some (Inr exampleScanned)"
  by code_simp

lemma example_analysis:
  "map_sum id fst (analyzeActions exampleEnv exampleScanned) = Inr exampleAnalyzed"
  by code_simp

lemma example_scan_out:
  "\<exists>out. scanRepositories 2 exampleEnv ''org'' = Some (Inr (exampleScanned, out))"
proof (cases "scanRepositories 2 exampleEnv ''org''")
  case None
  with example_scan show ?thesis by simp
next
  case (Some r)
  with example_scan show ?thesis by (cases r) auto
qed

lemma example_analysis_out:
  "\<exists>out. analyzeActions exampleEnv exampleScanned = Inr (exampleAnalyzed, out)"
  using example_analysis by (cases "analyzeActions exampleEnv exampleScanned") auto

section \<open>Invariants of the usage mapping\<close>

lemma untouched_fields:
  "untouched info \<Longrightarrow>
   \<not> UsesNpm info \<and> \<not> IsInfected info \<and> InfectedPackages info = [] \<and> \<not> Analyzed info"
  by (cases info) (simp add: untouched_def freshInfo_def)

lemma analysisOf_keys_repos:
  "list_all2 (analysisOf e) usesRepos usesRepos1 \<Longrightarrow>
   map fst usesRepos1 = map fst usesRepos \<and>
   map (\<lambda>(k, info). Repos info) usesRepos1 = map (\<lambda>(k, info). Repos info) usesRepos"
proof (induction rule: list_all2_induct)
  case Nil
  show ?case by simp
next
  case (Cons x xs y ys)
  obtain k info k1 info1 where xy: "x = (k, info)" "y = (k1, info1)"
    by (cases x, cases y) blast
  with Cons.hyps(1) analysisOf_fields [of e k info k1 info1] Cons.IH show ?case
    by simp
qed

text \<open>
  Claim C3. For every entry of the usage mapping, \<^verbatim>\<open>IsInfected\<close> is true if and only if
  \<^verbatim>\<open>InfectedPackages\<close> is not empty: in the mapping the scan returns (after creation); in
  the mapping after a call of \<^verbatim>\<open>addActionUsage\<close> on a mapping where it holds; and in the
  mapping the analysis pass returns for a mapping where it holds (after analysis). The
  report is computed from that mapping and changes nothing (\<open>printResults\<close> returns only
  what it prints), so it holds during reporting too. The property is one of the set of
  entries, so the order in which a loop visits them does not matter to it.
\<close>

theorem infected_iff_infectedPackages:
  "(scanRepositories fuel e org = Some (Inr (usesRepos, out1)) \<longrightarrow>
      (\<forall>(k, info) \<in> set usesRepos. IsInfected info \<longleftrightarrow> InfectedPackages info \<noteq> [])) \<and>
   ((\<forall>(k, info) \<in> set usesRepos. IsInfected info \<longleftrightarrow> InfectedPackages info \<noteq> []) \<longrightarrow>
      (\<forall>(k, info) \<in> set (addActionUsage actionUse repoName usesRepos).
          IsInfected info \<longleftrightarrow> InfectedPackages info \<noteq> [])) \<and>
   ((\<forall>(k, info) \<in> set usesRepos. IsInfected info \<longleftrightarrow> InfectedPackages info \<noteq> []) \<and>
    analyzeActions e usesRepos = Inr (usesRepos1, out2) \<longrightarrow>
      (\<forall>(k, info) \<in> set usesRepos1. IsInfected info \<longleftrightarrow> InfectedPackages info \<noteq> []))"
proof (intro conjI impI)
  assume "scanRepositories fuel e org = Some (Inr (usesRepos, out1))"
  then have "\<And>k info. (k, info) \<in> set usesRepos \<Longrightarrow> untouched info"
    using scanRepositories_entries by blast
  moreover have "\<And>info. untouched info \<Longrightarrow> IsInfected info \<longleftrightarrow> InfectedPackages info \<noteq> []"
    by (simp add: untouched_fields)
  ultimately show "\<forall>(k, info) \<in> set usesRepos. IsInfected info \<longleftrightarrow> InfectedPackages info \<noteq> []"
    by blast
next
  assume inv: "\<forall>(k, info) \<in> set usesRepos. IsInfected info \<longleftrightarrow> InfectedPackages info \<noteq> []"
  show "\<forall>(k, info) \<in> set (addActionUsage actionUse repoName usesRepos).
          IsInfected info \<longleftrightarrow> InfectedPackages info \<noteq> []"
  proof (clarify)
    fix k info assume "(k, info) \<in> set (addActionUsage actionUse repoName usesRepos)"
    from set_addActionUsage_cases [OF this] inv
    show "IsInfected info \<longleftrightarrow> InfectedPackages info \<noteq> []"
      by (auto simp: freshInfo_def)
  qed
next
  assume a: "(\<forall>(k, info) \<in> set usesRepos. IsInfected info \<longleftrightarrow> InfectedPackages info \<noteq> []) \<and>
    analyzeActions e usesRepos = Inr (usesRepos1, out2)"
  then have rel: "list_all2 (analysisOf e) usesRepos usesRepos1"
    using analyzeActions_analysisOf by blast
  show "\<forall>(k, info) \<in> set usesRepos1. IsInfected info \<longleftrightarrow> InfectedPackages info \<noteq> []"
  proof (clarify)
    fix k info1 assume "(k, info1) \<in> set usesRepos1"
    from analysisOf_set [OF rel this] obtain info where
      i: "(k, info) \<in> set usesRepos" "analysisOf e (k, info) (k, info1)" by blast
    from a i(1) have "IsInfected info \<longleftrightarrow> InfectedPackages info \<noteq> []" by blast
    with analysisOf_fields [OF i(2)]
    show "IsInfected info1 \<longleftrightarrow> InfectedPackages info1 \<noteq> []" by blast
  qed
qed

theorem infected_iff_infectedPackages_witness:
  "map_option (map_sum id fst) (scanRepositories 2 exampleEnv ''org'') = Some (Inr exampleScanned) \<and>
   map_sum id fst (analyzeActions exampleEnv exampleScanned) = Inr exampleAnalyzed \<and>
   list_all (\<lambda>(k, info). IsInfected info \<longleftrightarrow> InfectedPackages info \<noteq> []) exampleScanned \<and>
   list_all (\<lambda>(k, info). IsInfected info \<longleftrightarrow> InfectedPackages info \<noteq> [])
     (addActionUsage ''actor/action@v1'' ''r4'' exampleScanned) \<and>
   list_all (\<lambda>(k, info). IsInfected info \<longleftrightarrow> InfectedPackages info \<noteq> []) exampleAnalyzed \<and>
   map_of exampleAnalyzed ''actor/action@v1'' =
     Some (freshInfo\<lparr>Repos := [''r1''], UsesNpm := True, IsInfected := True,
                     InfectedPackages := [''left-pad@1.3.0''], Analyzed := True\<rparr>)"
proof -
  from example_scan_out obtain out1 where
    s: "scanRepositories 2 exampleEnv ''org'' = Some (Inr (exampleScanned, out1))" ..
  from example_analysis_out obtain out2 where
    a: "analyzeActions exampleEnv exampleScanned = Inr (exampleAnalyzed, out2)" ..
  have m: "map_of exampleAnalyzed ''actor/action@v1'' =
     Some (freshInfo\<lparr>Repos := [''r1''], UsesNpm := True, IsInfected := True,
                     InfectedPackages := [''left-pad@1.3.0''], Analyzed := True\<rparr>)"
    by (simp add: exampleAnalyzed_def)
  show ?thesis
    using infected_iff_infectedPackages
      [of 2 exampleEnv "''org''" exampleScanned out1 "''actor/action@v1''" "''r4''"
          exampleAnalyzed out2]
    by (simp add: s a m list_all_iff)
qed

text \<open>
  Claim C9. Every entry of the usage mapping has a repository: this holds for the
  mapping the scan returns. \<^verbatim>\<open>addActionUsage\<close>, the only place where an entry is created,
  leaves the entry of its reference with the repository name in it; it keeps the
  property, deletes no entry and removes no repository from one. The analysis pass
  leaves the keys and the repositories of every entry as they are.
\<close>

theorem repos_never_empty:
  "(scanRepositories fuel e org = Some (Inr (usesRepos, out1)) \<longrightarrow>
      (\<forall>(k, info) \<in> set usesRepos. Repos info \<noteq> [])) \<and>
   (\<exists>info. map_of (addActionUsage actionUse repoName usesRepos) actionUse = Some info \<and>
           repoName \<in> set (Repos info)) \<and>
   ((\<forall>(k, info) \<in> set usesRepos. Repos info \<noteq> []) \<longrightarrow>
      (\<forall>(k, info) \<in> set (addActionUsage actionUse repoName usesRepos). Repos info \<noteq> [])) \<and>
   (map_of usesRepos k = Some old \<longrightarrow>
      (\<exists>info. map_of (addActionUsage actionUse repoName usesRepos) k = Some info \<and>
              set (Repos old) \<subseteq> set (Repos info))) \<and>
   (analyzeActions e usesRepos = Inr (usesRepos1, out2) \<longrightarrow>
      map fst usesRepos1 = map fst usesRepos \<and>
      map (\<lambda>(k, info). Repos info) usesRepos1 = map (\<lambda>(k, info). Repos info) usesRepos)"
proof (intro conjI impI)
  assume "scanRepositories fuel e org = Some (Inr (usesRepos, out1))"
  then show "\<forall>(k, info) \<in> set usesRepos. Repos info \<noteq> []"
    using scanRepositories_entries by blast
next
  show "\<exists>info. map_of (addActionUsage actionUse repoName usesRepos) actionUse = Some info \<and>
           repoName \<in> set (Repos info)"
    by (cases "map_of usesRepos actionUse") (simp_all add: map_of_addActionUsage)
next
  assume inv: "\<forall>(k, info) \<in> set usesRepos. Repos info \<noteq> []"
  show "\<forall>(k, info) \<in> set (addActionUsage actionUse repoName usesRepos). Repos info \<noteq> []"
  proof (clarify)
    fix k info
    assume "(k, info) \<in> set (addActionUsage actionUse repoName usesRepos)" "Repos info = []"
    with set_addActionUsage_cases [OF this(1)] inv show False
      by (auto simp: List.insert_def split: if_splits)
  qed
next
  assume "map_of usesRepos k = Some old"
  then show "\<exists>info. map_of (addActionUsage actionUse repoName usesRepos) k = Some info \<and>
              set (Repos old) \<subseteq> set (Repos info)"
    by (auto simp: map_of_addActionUsage)
next
  assume "analyzeActions e usesRepos = Inr (usesRepos1, out2)"
  then have "list_all2 (analysisOf e) usesRepos usesRepos1"
    by (rule analyzeActions_analysisOf)
  then have r: "map fst usesRepos1 = map fst usesRepos \<and>
      map (\<lambda>(k, info). Repos info) usesRepos1 = map (\<lambda>(k, info). Repos info) usesRepos"
    by (rule analysisOf_keys_repos)
  from r show "map fst usesRepos1 = map fst usesRepos" ..
  from r show "map (\<lambda>(k, info). Repos info) usesRepos1 = map (\<lambda>(k, info). Repos info) usesRepos" ..
qed

theorem repos_never_empty_witness:
  "map_option (map_sum id fst) (scanRepositories 2 exampleEnv ''org'') = Some (Inr exampleScanned) \<and>
   map_sum id fst (analyzeActions exampleEnv exampleScanned) = Inr exampleAnalyzed \<and>
   list_all (\<lambda>(k, info). Repos info \<noteq> []) exampleScanned \<and>
   list_all (\<lambda>(k, info). Repos info \<noteq> []) (addActionUsage ''actor/new@v1'' ''r4'' exampleScanned) \<and>
   map_of exampleScanned ''actor/action@v1'' = Some (freshInfo\<lparr>Repos := [''r1'']\<rparr>) \<and>
   map_option (\<lambda>info. set (Repos info))
     (map_of (addActionUsage ''actor/new@v1'' ''r4'' exampleScanned) ''actor/action@v1'') =
     Some {''r1''} \<and>
   map fst exampleAnalyzed = map fst exampleScanned \<and>
   map (\<lambda>(k, info). Repos info) exampleAnalyzed = map (\<lambda>(k, info). Repos info) exampleScanned"
proof -
  from example_scan_out obtain out1 where
    s: "scanRepositories 2 exampleEnv ''org'' = Some (Inr (exampleScanned, out1))" ..
  from example_analysis_out obtain out2 where
    a: "analyzeActions exampleEnv exampleScanned = Inr (exampleAnalyzed, out2)" ..
  have m: "map_of exampleScanned ''actor/action@v1'' = Some (freshInfo\<lparr>Repos := [''r1'']\<rparr>)"
    by (simp add: exampleScanned_def)
  have n: "map_option (\<lambda>info. set (Repos info))
     (map_of (addActionUsage ''actor/new@v1'' ''r4'' exampleScanned) ''actor/action@v1'') =
     Some {''r1''}"
    by (simp add: map_of_addActionUsage m)
  show ?thesis
    using repos_never_empty
      [of 2 exampleEnv "''org''" exampleScanned out1 "''actor/new@v1''" "''r4''"
          "''actor/action@v1''" "freshInfo\<lparr>Repos := [''r1'']\<rparr>" exampleAnalyzed out2]
    by (simp add: s a m n list_all_iff)
qed

section \<open>Which entries the analysis marks\<close>




section \<open>The fallback to \<^verbatim>\<open>package.json\<close>\<close>

lemma analyzeActionDependencies_no_lock:
  "GetContents e owner repo ''package-lock.json'' = Failed err \<Longrightarrow>
   analyzeActionDependencies e owner repo info = Inr (analyzePackageJsonFile e owner repo info)"
  by (cases "analyzePackageJsonFile e owner repo info")
     (simp add: analyzeActionDependencies_def analyzePackageLockFile_def)

lemma analyzePackageJsonFile_UsesNpm:
  "fst (analyzePackageJsonFile e owner repo info) =
     (if (\<exists>err. GetContents e owner repo ''package.json'' = Failed err) then info
      else info\<lparr>UsesNpm := True\<rparr>)"
  by (cases "GetContents e owner repo ''package.json''")
     (simp_all add: analyzePackageJsonFile_def)

text \<open>
  An entry that the scan created and the analysis marked is the result of
  \<^verbatim>\<open>analyzeActionDependencies\<close> on an untouched entry.
\<close>

lemma analyzed_entry_origin:
  assumes "scanRepositories fuel e org = Some (Inr (usesRepos, out1))"
    and "set visited = set usesRepos"
    and "analyzeActions e visited = Inr (usesRepos1, out2)"
    and "(actionUse, info) \<in> set usesRepos1"
    and "Analyzed info"
    and "parseActionReference actionUse = (owner, repo)"
  shows "\<exists>info0 info1 out. untouched info0 \<and>
           analyzeActionDependencies e owner repo info0 = Inr (info1, out) \<and>
           info = info1\<lparr>Analyzed := True\<rparr>"
proof -
  have "list_all2 (analysisOf e) visited usesRepos1"
    using assms(3) by (rule analyzeActions_analysisOf)
  from analysisOf_set [OF this assms(4)] obtain info0 where
    i: "(actionUse, info0) \<in> set visited" "analysisOf e (actionUse, info0) (actionUse, info)"
    by blast
  from i(1) assms(2) have "(actionUse, info0) \<in> set usesRepos" by simp
  from scanRepositories_entries [OF assms(1) this] have u: "untouched info0" ..
  then have n: "\<not> Analyzed info0" by (simp add: untouched_fields)
  have w: "wellFormedReference actionUse"
  proof (rule ccontr)
    assume "\<not> wellFormedReference actionUse"
    with i(2) have "info = info0" by (simp add: analysisOf_def)
    with n assms(5) show False by simp
  qed
  from i(2) n w assms(6) obtain info1 out where
    "analyzeActionDependencies e owner repo info0 = Inr (info1, out)"
    "info = info1\<lparr>Analyzed := True\<rparr>"
    by (auto simp: analysisOf_def split: sum.splits)
  with u show ?thesis by blast
qed

text \<open>
  Claim C8. Take an entry that the scan created and the analysis pass (visiting the
  entries of the scan in any order) marked as
  analyzed, with the owner and repository of its reference, and let the fetch of
  \<^verbatim>\<open>package-lock.json\<close> from that repository fail. Then the entry has \<^verbatim>\<open>UsesNpm = true\<close>
  exactly when the fetch of \<^verbatim>\<open>package.json\<close> does not fail; it has \<^verbatim>\<open>IsInfected = false\<close>
  and an empty list of infected packages in both cases; and no dependency is checked:
  the analysis of the repository gives the same result whatever the registry and the
  JSON parser are.
\<close>

theorem no_lock_file_fallback:
  assumes "scanRepositories fuel e org = Some (Inr (usesRepos, out1))"
    and "set visited = set usesRepos"
    and "analyzeActions e visited = Inr (usesRepos1, out2)"
    and "(actionUse, info) \<in> set usesRepos1"
    and "Analyzed info"
    and "parseActionReference actionUse = (owner, repo)"
    and "GetContents e owner repo ''package-lock.json'' = Failed err"
  shows "(UsesNpm info \<longleftrightarrow> (\<forall>err2. GetContents e owner repo ''package.json'' \<noteq> Failed err2)) \<and>
         \<not> IsInfected info \<and> InfectedPackages info = [] \<and>
         analyzeActionDependencies (e\<lparr>infectedPackages := registry, jsonUnmarshal := unmarshal\<rparr>)
           owner repo anyInfo =
         analyzeActionDependencies e owner repo anyInfo"
proof -
  from analyzed_entry_origin [OF assms(1-6)] obtain i0 i1 out where
    o: "untouched i0" "analyzeActionDependencies e owner repo i0 = Inr (i1, out)"
       "info = i1\<lparr>Analyzed := True\<rparr>"
    by blast
  from o(2) assms(7) have "i1 = fst (analyzePackageJsonFile e owner repo i0)"
    by (simp add: analyzeActionDependencies_no_lock)
  then have i1: "i1 = (if (\<exists>err. GetContents e owner repo ''package.json'' = Failed err) then i0
      else i0\<lparr>UsesNpm := True\<rparr>)"
    by (simp add: analyzePackageJsonFile_UsesNpm)
  have fields: "(UsesNpm info \<longleftrightarrow> (\<forall>err2. GetContents e owner repo ''package.json'' \<noteq> Failed err2)) \<and>
         \<not> IsInfected info \<and> InfectedPackages info = []"
    using untouched_fields [OF o(1)] by (auto simp: o(3) i1)
  have "analyzeActionDependencies (e\<lparr>infectedPackages := registry, jsonUnmarshal := unmarshal\<rparr>)
           owner repo anyInfo =
         analyzeActionDependencies e owner repo anyInfo"
    using assms(7)
    by (simp add: analyzeActionDependencies_def analyzePackageLockFile_def
        analyzePackageJsonFile_def)
  with fields show ?thesis by blast
qed

theorem no_lock_file_fallback_witness:
  "map_option (map_sum id fst) (scanRepositories 2 exampleEnv ''org'') = Some (Inr exampleScanned) \<and>
   map_sum id fst (analyzeActions exampleEnv exampleScanned) = Inr exampleAnalyzed \<and>
   map_of exampleAnalyzed ''actions/checkout@v4'' =
     Some (freshInfo\<lparr>Repos := [''r1''], UsesNpm := True, Analyzed := True\<rparr>) \<and>
   parseActionReference ''actions/checkout@v4'' = (''actions'', ''checkout'') \<and>
   GetContents exampleEnv ''actions'' ''checkout'' ''package-lock.json'' =
     Failed (ErrorResponse 404 ''404 Not Found'') \<and>
   GetContents exampleEnv ''actions'' ''checkout'' ''package.json'' =
     FileContent (exampleFile ''package.json'' ''package.json'' (Inr ''{}'')) \<and>
   analyzeActionDependencies
     (exampleEnv\<lparr>infectedPackages := [''x@1''], jsonUnmarshal := (\<lambda>s. Inr [])\<rparr>)
     ''actions'' ''checkout'' freshInfo =
   analyzeActionDependencies exampleEnv ''actions'' ''checkout'' freshInfo"
proof -
  from example_scan_out obtain out1 where
    s: "scanRepositories 2 exampleEnv ''org'' = Some (Inr (exampleScanned, out1))" ..
  from example_analysis_out obtain out2 where
    a: "analyzeActions exampleEnv exampleScanned = Inr (exampleAnalyzed, out2)" ..
  have m: "(''actions/checkout@v4'', freshInfo\<lparr>Repos := [''r1''], UsesNpm := True, Analyzed := True\<rparr>)
      \<in> set exampleAnalyzed"
    by (simp add: exampleAnalyzed_def)
  have m': "map_of exampleAnalyzed ''actions/checkout@v4'' =
     Some (freshInfo\<lparr>Repos := [''r1''], UsesNpm := True, Analyzed := True\<rparr>)"
    by (simp add: exampleAnalyzed_def)
  have z: "Analyzed (freshInfo\<lparr>Repos := [''r1''], UsesNpm := True, Analyzed := True\<rparr>)"
    by simp
  have p: "parseActionReference ''actions/checkout@v4'' = (''actions'', ''checkout'')"
    by code_simp
  have l: "GetContents exampleEnv ''actions'' ''checkout'' ''package-lock.json'' =
     Failed (ErrorResponse 404 ''404 Not Found'')"
    by (simp add: exampleEnv_def)
  have j: "GetContents exampleEnv ''actions'' ''checkout'' ''package.json'' =
     FileContent (exampleFile ''package.json'' ''package.json'' (Inr ''{}''))"
    by (simp add: exampleEnv_def)
  from no_lock_file_fallback
    [where registry = "[''x@1'']" and unmarshal = "\<lambda>s. Inr []" and anyInfo = freshInfo,
     OF s refl a m z p l]
  show ?thesis
    by (simp add: s a m' p l j)
qed

section \<open>A lock file that gives no packages\<close>

lemma analyzePackageLockFile_without_packages:
  assumes "GetContents e owner repo ''package-lock.json'' = FileContent packageLock"
    and "lockWithoutPackages e packageLock"
  shows "\<exists>out. analyzePackageLockFile e owner repo info = Inr ((True, info\<lparr>UsesNpm := True\<rparr>), out)"
proof (cases "GetContent packageLock")
  case (Inl err)
  with assms(1) show ?thesis by (simp add: analyzePackageLockFile_def)
next
  case (Inr content)
  show ?thesis
  proof (cases "jsonUnmarshal e content")
    case (Inl err)
    with assms(1) Inr show ?thesis by (simp add: analyzePackageLockFile_def)
  next
    case lock: (Inr lockJSON)
    with assms(2) Inr have "assertMap (lookup lockJSON ''packages'') = None"
      by (simp add: lockWithoutPackages_def)
    with assms(1) Inr lock show ?thesis
      by (simp add: analyzePackageLockFile_def checkPackagesForInfection_no_packages)
  qed
qed

lemma analyzePackageLockFile_handled:
  assumes "GetContents e owner repo ''package-lock.json'' = FileContent packageLock"
  shows "\<exists>info1 out. analyzePackageLockFile e owner repo info = Inr ((True, info1), out)"
proof (cases "GetContent packageLock")
  case (Inl err)
  with assms(1) show ?thesis by (simp add: analyzePackageLockFile_def)
next
  case (Inr content)
  show ?thesis
  proof (cases "jsonUnmarshal e content")
    case (Inl err)
    with assms(1) Inr show ?thesis by (simp add: analyzePackageLockFile_def)
  next
    case lock: (Inr lockJSON)
    with assms(1) Inr show ?thesis
      by (cases "checkPackagesForInfection (infectedPackages e) lockJSON (info\<lparr>UsesNpm := True\<rparr>)")
         (simp add: analyzePackageLockFile_def)
  qed
qed

lemma analyzePackageLockFile_withPackageJson:
  "analyzePackageLockFile (withPackageJson c e) owner repo info =
   analyzePackageLockFile e owner repo info"
proof -
  have f: "GetContents (withPackageJson c e) owner repo ''package-lock.json'' =
          GetContents e owner repo ''package-lock.json''"
    "jsonUnmarshal (withPackageJson c e) = jsonUnmarshal e"
    "infectedPackages (withPackageJson c e) = infectedPackages e"
    by (simp_all add: withPackageJson_def)
  show ?thesis
    unfolding analyzePackageLockFile_def f ..
qed

text \<open>
  Claim C10. Take an entry that the scan created and the analysis pass (visiting the
  entries of the scan in any order) marked as
  analyzed, and let the fetch of \<^verbatim>\<open>package-lock.json\<close> from its repository give a file.
  Then the entry has \<^verbatim>\<open>UsesNpm = true\<close>; when the content of the file does not decode,
  does not parse as JSON or parses without a \<^verbatim>\<open>packages\<close> mapping, the entry has
  \<^verbatim>\<open>IsInfected = false\<close> and an empty list of infected packages; and \<^verbatim>\<open>package.json\<close> is
  not consulted: the analysis of the repository gives the same result whatever the
  fetch of \<^verbatim>\<open>package.json\<close> would return.
\<close>

theorem lock_file_without_packages:
  assumes "scanRepositories fuel e org = Some (Inr (usesRepos, out1))"
    and "set visited = set usesRepos"
    and "analyzeActions e visited = Inr (usesRepos1, out2)"
    and "(actionUse, info) \<in> set usesRepos1"
    and "Analyzed info"
    and "parseActionReference actionUse = (owner, repo)"
    and "GetContents e owner repo ''package-lock.json'' = FileContent packageLock"
  shows "UsesNpm info \<and>
         (lockWithoutPackages e packageLock \<longrightarrow> \<not> IsInfected info \<and> InfectedPackages info = []) \<and>
         analyzeActionDependencies (withPackageJson c e) owner repo anyInfo =
         analyzeActionDependencies e owner repo anyInfo"
proof -
  from analyzed_entry_origin [OF assms(1-6)] obtain i0 i1 out where
    o: "untouched i0" "analyzeActionDependencies e owner repo i0 = Inr (i1, out)"
       "info = i1\<lparr>Analyzed := True\<rparr>"
    by blast
  from analyzePackageLockFile_handled [OF assms(7)] obtain i2 out' where
    h: "analyzePackageLockFile e owner repo i0 = Inr ((True, i2), out')" by blast
  with o(2) have i1: "i1 = i2" by (simp add: analyzeActionDependencies_def)
  from analyzePackageLockFile_fields [OF h] have "UsesNpm i2" by simp
  with i1 o(3) have uses: "UsesNpm info" by simp
  have clean: "lockWithoutPackages e packageLock \<longrightarrow> \<not> IsInfected info \<and> InfectedPackages info = []"
  proof
    assume "lockWithoutPackages e packageLock"
    from analyzePackageLockFile_without_packages [OF assms(7) this, of i0] h
    have "i2 = i0\<lparr>UsesNpm := True\<rparr>" by auto
    with i1 o(3) untouched_fields [OF o(1)]
    show "\<not> IsInfected info \<and> InfectedPackages info = []" by simp
  qed
  from analyzePackageLockFile_handled [OF assms(7)] obtain i3 out3 where
    "analyzePackageLockFile e owner repo anyInfo = Inr ((True, i3), out3)" by blast
  then have "analyzeActionDependencies (withPackageJson c e) owner repo anyInfo =
         analyzeActionDependencies e owner repo anyInfo"
    by (simp add: analyzeActionDependencies_def analyzePackageLockFile_withPackageJson)
  with uses clean show ?thesis by blast
qed

theorem lock_file_without_packages_witness:
  "map_option (map_sum id fst) (scanRepositories 2 exampleEnv ''org'') = Some (Inr exampleScanned) \<and>
   map_sum id fst (analyzeActions exampleEnv exampleScanned) = Inr exampleAnalyzed \<and>
   map_of exampleAnalyzed ''actor/broken@v2'' =
     Some (freshInfo\<lparr>Repos := [''r1''], UsesNpm := True, Analyzed := True\<rparr>) \<and>
   parseActionReference ''actor/broken@v2'' = (''actor'', ''broken'') \<and>
   GetContents exampleEnv ''actor'' ''broken'' ''package-lock.json'' =
     FileContent (exampleFile ''package-lock.json'' ''package-lock.json'' (Inr ''<html>'')) \<and>
   lockWithoutPackages exampleEnv
     (exampleFile ''package-lock.json'' ''package-lock.json'' (Inr ''<html>'')) \<and>
   analyzeActionDependencies
     (withPackageJson (FileContent (exampleFile ''package.json'' ''package.json'' (Inr ''{}'')))
        exampleEnv)
     ''actor'' ''broken'' freshInfo =
   analyzeActionDependencies exampleEnv ''actor'' ''broken'' freshInfo"
proof -
  from example_scan_out obtain out1 where
    s: "scanRepositories 2 exampleEnv ''org'' = Some (Inr (exampleScanned, out1))" ..
  from example_analysis_out obtain out2 where
    a: "analyzeActions exampleEnv exampleScanned = Inr (exampleAnalyzed, out2)" ..
  have m: "(''actor/broken@v2'', freshInfo\<lparr>Repos := [''r1''], UsesNpm := True, Analyzed := True\<rparr>)
      \<in> set exampleAnalyzed"
    by (simp add: exampleAnalyzed_def)
  have m': "map_of exampleAnalyzed ''actor/broken@v2'' =
     Some (freshInfo\<lparr>Repos := [''r1''], UsesNpm := True, Analyzed := True\<rparr>)"
    by (simp add: exampleAnalyzed_def)
  have z: "Analyzed (freshInfo\<lparr>Repos := [''r1''], UsesNpm := True, Analyzed := True\<rparr>)"
    by simp
  have p: "parseActionReference ''actor/broken@v2'' = (''actor'', ''broken'')"
    by code_simp
  have l: "GetContents exampleEnv ''actor'' ''broken'' ''package-lock.json'' =
     FileContent (exampleFile ''package-lock.json'' ''package-lock.json'' (Inr ''<html>''))"
    by (simp add: exampleEnv_def)
  have w: "lockWithoutPackages exampleEnv
     (exampleFile ''package-lock.json'' ''package-lock.json'' (Inr ''<html>''))"
    by (simp add: lockWithoutPackages_def exampleFile_def exampleEnv_def)
  from lock_file_without_packages
    [where c = "FileContent (exampleFile ''package.json'' ''package.json'' (Inr ''{}''))"
       and anyInfo = freshInfo, OF s refl a m z p l]
  show ?thesis
    by (simp add: s a m' p l w)
qed

section \<open>A repository whose workflow directory cannot be listed\<close>

lemma shouldStopScanning_never: "\<not> shouldStopScanning repoCount"
  by (simp add: shouldStopScanning_def enableLimit_def maxRepos_def)

text \<open>
  When the listing fails, \<^verbatim>\<open>processRepository\<close> returns with the mapping as it was. It
  logs the failure unless the error is a \<^verbatim>\<open>*github.ErrorResponse\<close>, whatever the status
  of that response is; the loop over the repositories then goes on.
\<close>

lemma processRepository_Failed:
  "GetContents e org repoName ''.github/workflows'' = Failed err \<Longrightarrow>
   processRepository e org repoName usesRepos =
     Inr (usesRepos,
          case err of
            ErrorResponse status msg \<Rightarrow> []
          | OtherError msg \<Rightarrow>
              [Log (''Error getting contents of .github/workflows in '' @ repoName @ '': '' @ msg)])"
  by (cases err) (simp_all add: processRepository_def)

lemma scanPage_after_failure:
  "GetContents e org repoName ''.github/workflows'' = Failed err \<Longrightarrow>
   scanPage e org (repoName # repos) repoCount usesRepos =
     (case scanPage e org repos (repoCount + 1) usesRepos of
        Inl a \<Rightarrow> Inl a
      | Inr (r, out2) \<Rightarrow>
          Inr (r, logRepoProgress repoCount repoName @
                  (case err of
                     ErrorResponse status msg \<Rightarrow> []
                   | OtherError msg \<Rightarrow>
                       [Log (''Error getting contents of .github/workflows in '' @ repoName @
                             '': '' @ msg)]) @ out2))"
  by (simp add: processRepository_Failed shouldStopScanning_never)

text \<open>
  Claim C4 says that only a "not found" response for the workflow directory is skipped
  silently and that any other failure is logged. The silent branch of
  \<^verbatim>\<open>processRepository\<close>, commented \<^verbatim>\<open>Directory doesn't exist, skip\<close> in the source, is
  taken for every \<^verbatim>\<open>*github.ErrorResponse\<close>: a response of status 500 is skipped with no
  log line as well. (That the mapping is unchanged and that the loop over the
  repositories goes on after any failure is \<open>processRepository_Failed\<close> and
  \<open>scanPage_after_failure\<close>.)
\<close>

theorem processRepository_server_error_silent:
  "GetContents serverErrorEnv ''org'' ''r1'' ''.github/workflows'' =
     Failed (ErrorResponse 500 ''500 Internal Server Error'') \<and>
   processRepository serverErrorEnv ''org'' ''r1'' [] = Inr ([], [])"
  by (simp add: serverErrorEnv_def processRepository_def)

end
